theory Spec2Isabelle
  imports Main "HOL-Library.Multiset"
begin

section \<open>Data model of \<open>window.ts\<close>\<close>

text \<open>
  JavaScript values that cross the channel to the backend: strings, numbers and arrays.
\<close>

datatype jsval = JStr string | JNum int | JArr "jsval list"

text \<open>
  Modelled from the spec: the declarations of \<open>HighlightItem\<close>, \<open>HighlightItemResult\<close>,
  \<open>HighlightItemDef\<close> and \<open>HighlightDiff\<close> live in \<open>types.ts\<close>, which is not among the
  sources. The spec's data model gives a desired item the fields group, line, startCol,
  endCol (unsigned) and three booleans; a backend record the same four fields and a marker.
  The field names are the ones \<open>window.ts\<close> reads.
\<close>

record HighlightItem =
  hlGroup :: string
  lnum :: nat
  colStart :: nat
  colEnd :: nat
  combine :: bool
  start_incl :: bool
  end_incl :: bool

text \<open>
  A backend record is the array \<open>[hlGroup, lnum, colStart, colEnd, id]\<close>; the code reads
  \<open>o[1]\<close> (the line), \<open>o[4]\<close> (the marker) and \<open>curr.slice(0, 4)\<close>.
\<close>

record HighlightItemResult =
  res_hlGroup :: string
  res_lnum :: nat
  res_colStart :: nat
  res_colEnd :: nat
  res_id :: nat

type_synonym HighlightItemDef = "jsval list"

record HighlightDiff =
  remove :: "nat list"
  add :: "HighlightItemDef list"
  removeMarkers :: "nat list"

definition result_array :: "HighlightItemResult \<Rightarrow> jsval list" where
  "result_array cur =
     [JStr (res_hlGroup cur), JNum (int (res_lnum cur)), JNum (int (res_colStart cur)),
      JNum (int (res_colEnd cur)), JNum (int (res_id cur))]"

definition slice :: "nat \<Rightarrow> nat \<Rightarrow> 'a list \<Rightarrow> 'a list" where
  "slice a b xs = take (b - a) (drop a xs)"

text \<open>
  Modelled from the spec: \<open>equals\<close> of \<open>util/object\<close> is not among the sources; on arrays
  of strings and numbers it is the element-wise comparison the spec calls the 4-field
  comparison.
\<close>

definition equals :: "jsval list \<Rightarrow> jsval list \<Rightarrow> bool" where
  "equals a b = (a = b)"

text \<open>Modelled from the spec: \<open>defaultValue\<close> of \<open>util\<close>, the value or a default.\<close>

definition defaultValue :: "'a option \<Rightarrow> 'a \<Rightarrow> 'a" where
  "defaultValue v d = (case v of None \<Rightarrow> d | Some x \<Rightarrow> x)"

section \<open>\<open>convertHighlightItem\<close> and \<open>isSame\<close>\<close>

definition bool_num :: "bool \<Rightarrow> jsval" where
  "bool_num b = JNum (if b then 1 else 0)"

definition convertHighlightItem :: "HighlightItem \<Rightarrow> HighlightItemDef" where
  "convertHighlightItem item =
     [JStr (hlGroup item), JNum (int (lnum item)), JNum (int (colStart item)),
      JNum (int (colEnd item)), bool_num (combine item), bool_num (start_incl item),
      bool_num (end_incl item)]"

definition isSame :: "HighlightItem \<Rightarrow> HighlightItemResult \<Rightarrow> bool" where
  "isSame item cur =
     (let arr = [JStr (hlGroup item), JNum (int (lnum item)), JNum (int (colStart item)),
                 JNum (int (colEnd item))]
      in equals arr (slice 0 4 (result_array cur)))"

section \<open>\<open>diffHighlights\<close>\<close>

text \<open>
  The promise returned by a backend request either rejects or resolves with a value.
\<close>

datatype 'a reply = Rejected | Resolved 'a

datatype error = TransportError

text \<open>
  The workspace is a collaborator of which only \<open>has\<close> and \<open>isVim\<close> are read.
\<close>

record workspace =
  has :: "string \<Rightarrow> bool"
  isVim :: bool

text \<open>
  The locals of \<open>diffHighlights\<close> that the scan over the lines updates. The local
  \<open>removeMarkers\<close> is the field \<open>markersToRemove\<close> here, as the diff has a field of
  that name.
\<close>

record diff_state =
  linesToRemove :: "nat list"
  markersToRemove :: "nat list"
  newItems :: "HighlightItemDef list"
  itemIndex :: nat

text \<open>
  \<open>curr.forEach\<close>: the highest line seen so far and the records grouped by line, each
  group in the order the backend reported.
\<close>

definition group_step ::
  "HighlightItemResult \<Rightarrow> nat \<times> (nat \<rightharpoonup> HighlightItemResult list)
     \<Rightarrow> nat \<times> (nat \<rightharpoonup> HighlightItemResult list)" where
  "group_step ob acc =
     (case acc of (maxLnum, m) \<Rightarrow>
        (max maxLnum (res_lnum ob),
         (case m (res_lnum ob) of
            Some arr \<Rightarrow> m(res_lnum ob \<mapsto> arr @ [ob])
          | None \<Rightarrow> m(res_lnum ob \<mapsto> [ob]))))"

definition group_curr ::
  "HighlightItemResult list \<Rightarrow> nat \<times> (nat \<rightharpoonup> HighlightItemResult list)" where
  "group_curr cur = fold group_step cur (0, Map.empty)"

text \<open>
  The inner \<open>for (let j = itemIndex; j <= maxIndex; j++)\<close>: collects the run of items on
  line \<open>i\<close> that starts at the cursor. \<open>maxIndex\<close> is \<open>items.length - 1\<close>, which is
  \<open>-1\<close> for no items, hence an integer; as \<open>j\<close> never exceeds it, \<open>items[j]\<close> is
  always an element of the array.
\<close>

function collect_added ::
  "HighlightItem list \<Rightarrow> int \<Rightarrow> nat \<Rightarrow> nat \<Rightarrow> nat \<times> HighlightItem list
     \<Rightarrow> nat \<times> HighlightItem list" where
  "collect_added items maxIndex i j acc =
     (case acc of (idx, added) \<Rightarrow>
        if int j \<le> maxIndex then
          (let ob = items ! j in
           if lnum ob = i then collect_added items maxIndex i (j + 1) (j + 1, added @ [ob])
           else (j, added))
        else (idx, added))"
  by pat_completeness auto
termination
  by (relation "measure (\<lambda>(items, maxIndex, i, j, acc). nat (maxIndex + 1 - int j))") auto

declare collect_added.simps [simp del]

text \<open>The \<open>while (skip < min)\<close> loop over the common prefix.\<close>

function skip_loop ::
  "HighlightItem list \<Rightarrow> HighlightItemResult list \<Rightarrow> nat \<Rightarrow> nat \<Rightarrow> nat" where
  "skip_loop added exists mn skip =
     (if skip < mn then
        (if isSame (added ! skip) (exists ! skip) then skip_loop added exists mn (skip + 1)
         else skip)
      else skip)"
  by pat_completeness auto
termination
  by (relation "measure (\<lambda>(added, exists, mn, skip). mn - skip)") auto

declare skip_loop.simps [simp del]

text \<open>\<open>added.every((o, i) => isSame(o, exists[i]))\<close>, reached only for equal lengths.\<close>

definition every_same :: "HighlightItem list \<Rightarrow> HighlightItemResult list \<Rightarrow> bool" where
  "every_same added exists =
     list_all (\<lambda>k. isSame (added ! k) (exists ! k)) [0..<length added]"

text \<open>
  The branches of the loop body once \<open>exists\<close> and \<open>added\<close> are known for line \<open>i\<close>.
\<close>

definition reconcile_line ::
  "bool \<Rightarrow> nat \<Rightarrow> HighlightItemResult list \<Rightarrow> HighlightItem list \<Rightarrow> diff_state
     \<Rightarrow> diff_state" where
  "reconcile_line checkMarkers i exists added st =
     (if length added = 0 then
        (if length exists > 0 then
           (if checkMarkers then
              st\<lparr>markersToRemove := markersToRemove st @ map res_id exists\<rparr>
            else st\<lparr>linesToRemove := linesToRemove st @ [i]\<rparr>)
         else st)
      else
        (if length exists = 0 then
           st\<lparr>newItems := newItems st @ map convertHighlightItem added\<rparr>
         else
           (if checkMarkers then
              (let skip = skip_loop added exists (min (length exists) (length added)) 0 in
               st\<lparr>markersToRemove := markersToRemove st @ map res_id (drop skip exists),
                  newItems := newItems st @ map convertHighlightItem (drop skip added)\<rparr>)
            else if length added \<noteq> length exists \<or> \<not> every_same added exists then
              st\<lparr>linesToRemove := linesToRemove st @ [i],
                 newItems := newItems st @ map convertHighlightItem added\<rparr>
            else st)))"

definition loop_body ::
  "bool \<Rightarrow> (nat \<rightharpoonup> HighlightItemResult list) \<Rightarrow> HighlightItem list \<Rightarrow> int \<Rightarrow> nat
     \<Rightarrow> diff_state \<Rightarrow> diff_state" where
  "loop_body checkMarkers m items maxIndex i st =
     (let exists = defaultValue (m i) [];
          (idx, added) = collect_added items maxIndex i (itemIndex st) (itemIndex st, [])
      in reconcile_line checkMarkers i exists added (st\<lparr>itemIndex := idx\<rparr>))"

text \<open>\<open>for (let i = start; i <= maxLnum; i++)\<close>.\<close>

function diff_loop ::
  "bool \<Rightarrow> (nat \<rightharpoonup> HighlightItemResult list) \<Rightarrow> HighlightItem list \<Rightarrow> int \<Rightarrow> nat
     \<Rightarrow> nat \<Rightarrow> diff_state \<Rightarrow> diff_state" where
  "diff_loop checkMarkers m items maxIndex maxLnum i st =
     (if i \<le> maxLnum then
        diff_loop checkMarkers m items maxIndex maxLnum (i + 1)
          (loop_body checkMarkers m items maxIndex i st)
      else st)"
  by pat_completeness auto
termination
  by (relation "measure (\<lambda>(c, m, items, maxIndex, maxLnum, i, st). maxLnum + 1 - i)") auto

declare diff_loop.simps [simp del]

text \<open>The final \<open>for (let i = itemIndex; i <= maxIndex; i++)\<close> over the unconsumed items.\<close>

function tail_loop ::
  "HighlightItem list \<Rightarrow> int \<Rightarrow> nat \<Rightarrow> HighlightItemDef list \<Rightarrow> HighlightItemDef list" where
  "tail_loop items maxIndex i acc =
     (if int i \<le> maxIndex then
        tail_loop items maxIndex (i + 1) (acc @ [convertHighlightItem (items ! i)])
      else acc)"
  by pat_completeness auto
termination
  by (relation "measure (\<lambda>(items, maxIndex, i, acc). nat (maxIndex + 1 - int i))") auto

declare tail_loop.simps [simp del]

text \<open>
  The state of the locals when the scan over the lines is over: lines 671 to 736, on the
  items as sorted.
\<close>

definition scan_lines ::
  "bool \<Rightarrow> HighlightItemResult list \<Rightarrow> HighlightItem list \<Rightarrow> (nat \<times> nat) option
     \<Rightarrow> diff_state" where
  "scan_lines checkMarkers cur items region =
     (let st0 = \<lparr>linesToRemove = [], markersToRemove = [], newItems = [], itemIndex = 0\<rparr>;
          maxIndex = int (length items) - 1;
          (maxLnum, m) = group_curr cur
      in if length cur > 0 then
           (let start = (case region of Some (a, b) \<Rightarrow> a | None \<Rightarrow> 0)
            in diff_loop checkMarkers m items maxIndex maxLnum start st0)
         else st0)"

text \<open>Lines 671 to 740: the diff computed from a snapshot and the sorted items.\<close>

definition reconcile ::
  "bool \<Rightarrow> HighlightItemResult list \<Rightarrow> HighlightItem list \<Rightarrow> (nat \<times> nat) option
     \<Rightarrow> HighlightDiff" where
  "reconcile checkMarkers cur items region =
     (let st = scan_lines checkMarkers cur items region;
          maxIndex = int (length items) - 1;
          newItems' = tail_loop items maxIndex (itemIndex st) (newItems st)
      in \<lparr>remove = linesToRemove st, add = newItems', removeMarkers = markersToRemove st\<rparr>)"

text \<open>The arguments of the \<open>coc#highlight#get_highlights\<close> request.\<close>

definition highlight_args :: "nat \<Rightarrow> string \<Rightarrow> (nat \<times> nat) option \<Rightarrow> jsval list" where
  "highlight_args bufnr ns region =
     [JNum (int bufnr), JStr ns]
     @ (case region of Some (a, b) \<Rightarrow> [JNum (int a), JNum (int b - 1)] | None \<Rightarrow> [])"

text \<open>
  \<open>diffHighlights\<close>. The backend is the function \<open>nvim_call\<close> from a request to the
  settled promise; \<open>None\<close> is a falsy answer (buffer not loaded). The token is \<open>None\<close>
  when the caller gave none, and otherwise carries \<open>isCancellationRequested\<close>. The
  caller's array is sorted in place by \<open>items.sort\<close>, so the model returns it next to the
  result.
\<close>

definition diffHighlights ::
  "(string \<Rightarrow> jsval list \<Rightarrow> HighlightItemResult list option reply) \<Rightarrow> workspace
     \<Rightarrow> nat \<Rightarrow> string \<Rightarrow> HighlightItem list \<Rightarrow> (nat \<times> nat) option \<Rightarrow> bool option
     \<Rightarrow> (error + HighlightDiff option) \<times> HighlightItem list" where
  "diffHighlights nvim_call ws bufnr ns items region token =
     (let args = highlight_args bufnr ns region
      in case nvim_call ''coc#highlight#get_highlights'' args of
           Rejected \<Rightarrow> (Inl TransportError, items)
         | Resolved None \<Rightarrow> (Inr None, items)
         | Resolved (Some cur) \<Rightarrow>
             if token = Some True then (Inr None, items)
             else
               (let items' = sort_key lnum items;
                    checkMarkers = (has ws ''nvim-0.5.1'' \<or> isVim ws)
                in (Inr (Some (reconcile checkMarkers cur items' region)), items')))"

section \<open>\<open>applyDiffHighlights\<close>\<close>

text \<open>
  What the backend client is asked to do, in order: \<open>pauseNotification()\<close>, a
  \<open>call(method, args, true)\<close> queued as a notification, and
  \<open>resumeNotification(redrawVim, notify)\<close>, whose second argument is absent (false) when
  the caller awaits the acknowledgement.
\<close>

datatype nvim_event =
  PauseNotification
  | CallNotify string "jsval list"
  | ResumeNotification bool bool

definition num_array :: "nat list \<Rightarrow> jsval" where
  "num_array xs = JArr (map (\<lambda>n. JNum (int n)) xs)"

text \<open>
  \<open>ack\<close> is how the promise of the awaited \<open>resumeNotification(true)\<close> settles; it is
  not looked at when \<open>notify\<close> is set.
\<close>

definition applyDiffHighlights ::
  "nat \<Rightarrow> string \<Rightarrow> int \<Rightarrow> HighlightDiff \<Rightarrow> bool \<Rightarrow> unit reply
     \<Rightarrow> (error + unit) \<times> nvim_event list" where
  "applyDiffHighlights bufnr ns priority diff notify ack =
     (if length (remove diff) = 0 \<and> length (add diff) = 0 \<and> length (removeMarkers diff) = 0
      then (Inr (), [])
      else
        (let ev0 = [PauseNotification];
             ev1 = (if length (removeMarkers diff) \<noteq> 0
                    then ev0 @ [CallNotify ''coc#highlight#del_markers''
                                  [JNum (int bufnr), JStr ns, num_array (removeMarkers diff)]]
                    else ev0);
             ev2 = (if length (remove diff) \<noteq> 0
                    then ev1 @ [CallNotify ''coc#highlight#clear''
                                  [JNum (int bufnr), JStr ns, num_array (remove diff)]]
                    else ev1);
             ev3 = (if length (add diff) \<noteq> 0
                    then ev2 @ [CallNotify ''coc#highlight#set''
                                  [JNum (int bufnr), JStr ns, JArr (map JArr (add diff)),
                                   JNum priority]]
                    else ev2)
         in if notify then (Inr (), ev3 @ [ResumeNotification True True])
            else
              (case ack of
                 Rejected \<Rightarrow> (Inl TransportError, ev3 @ [ResumeNotification True False])
               | Resolved u \<Rightarrow> (Inr (), ev3 @ [ResumeNotification True False]))))"

section \<open>The pickers behind the gate\<close>

text \<open>
  What a caller of the three pickers can observe of the gate and of the screen: the gate
  being taken and given back, and a modal surface being shown.
\<close>

datatype surface = QuickPickSurface | MenuSurface | PickerSurface

datatype ui_event = Acquire | Release | Present surface

text \<open>
  Modelled from the spec: \<open>Mutex.use\<close> of \<open>util/mutex\<close> is not among the sources. The
  gate goes from idle to held when the task gets its turn and back to idle when the task
  settles, whether it succeeded or failed.
\<close>

definition mutex_use ::
  "(ui_event list \<Rightarrow> 'r \<times> ui_event list) \<Rightarrow> ui_event list \<Rightarrow> 'r \<times> ui_event list" where
  "mutex_use task tr = (case task (tr @ [Acquire]) of (r, tr') \<Rightarrow> (r, tr' @ [Release]))"

text \<open>
  The widgets \<open>QuickPick\<close>, \<open>Menu\<close> and \<open>Picker\<close> are collaborators: what the user
  does with a shown surface is an input of the model. A surface either fails to show or
  closes with the user's choice (\<open>None\<close> for a dismissed quick pick or picker).
\<close>

datatype 'c shown = ShowFailed | Closed 'c

datatype uierror = ShowError | ItemsRejected

record QuickPickItem =
  label :: string
  description :: string

datatype Item = Text string | Pick QuickPickItem

datatype picked = Undefined | One Item | Many "Item list"

text \<open>
  The first argument of \<open>showQuickPick\<close> is an array of items or a promise of one; a
  promise either rejects or resolves with the items.
\<close>

datatype items_arg = ItemArray "Item list" | ItemPromise "Item list reply"

text \<open>\<open>await Promise.resolve(itemsOrItemsPromise)\<close>.\<close>

definition await_items :: "items_arg \<Rightarrow> Item list reply" where
  "await_items arg = (case arg of ItemArray xs \<Rightarrow> Resolved xs | ItemPromise p \<Rightarrow> p)"

definition toQuickPickItem :: "Item \<Rightarrow> QuickPickItem" where
  "toQuickPickItem ob = (case ob of Text s \<Rightarrow> \<lparr>label = s, description = []\<rparr> | Pick q \<Rightarrow> q)"

definition isText_item :: "Item \<Rightarrow> bool" where
  "isText_item ob = (case ob of Text s \<Rightarrow> True | Pick q \<Rightarrow> False)"

text \<open>
  \<open>showQuickPick\<close>. The helper \<open>isFalsyOrEmpty\<close> of \<open>util/array\<close> is not among the
  sources and is a parameter: when it holds of the argument the call resolves undefined at
  once. Otherwise the argument is awaited, which fails the call if the promise rejects, and
  only then is the gate asked for. \<open>canPickMany\<close> is the one option the result depends on.
  The token defaults to \<open>CancellationToken.None\<close>, which is never cancelled.
\<close>

definition showQuickPick ::
  "(items_arg \<Rightarrow> bool) \<Rightarrow> items_arg \<Rightarrow> bool \<Rightarrow> bool option
     \<Rightarrow> QuickPickItem list option shown \<Rightarrow> ui_event list
     \<Rightarrow> (uierror + picked) \<times> ui_event list" where
  "showQuickPick isFalsyOrEmpty itemsOrItemsPromise canPickMany token outcome tr =
     (if isFalsyOrEmpty itemsOrItemsPromise then (Inr Undefined, tr)
      else
        (case await_items itemsOrItemsPromise of
           Rejected \<Rightarrow> (Inl ItemsRejected, tr)
         | Resolved items \<Rightarrow>
             (let isText = list_ex isText_item items
              in mutex_use
                   (\<lambda>tr1.
                      if token = Some True then (Inr Undefined, tr1)
                      else
                        (case outcome of
                           ShowFailed \<Rightarrow> (Inl ShowError, tr1 @ [Present QuickPickSurface])
                         | Closed None \<Rightarrow> (Inr Undefined, tr1 @ [Present QuickPickSurface])
                         | Closed (Some sel) \<Rightarrow>
                             (let arr = (if isText then map (\<lambda>q. Text (label q)) sel
                                         else map Pick sel)
                              in (Inr (if canPickMany then Many arr
                                       else (case arr of [] \<Rightarrow> Undefined
                                             | a # rest \<Rightarrow> One a)),
                                  tr1 @ [Present QuickPickSurface]))))
                   tr)))"

text \<open>\<open>showMenuPicker\<close>: the selected index, \<open>-1\<close> when cancelled.\<close>

definition showMenuPicker ::
  "bool option \<Rightarrow> int shown \<Rightarrow> ui_event list \<Rightarrow> (uierror + int) \<times> ui_event list" where
  "showMenuPicker token outcome tr =
     mutex_use
       (\<lambda>tr1.
          if token \<noteq> None \<and> token = Some True then (Inr (- 1), tr1)
          else
            (case outcome of
               ShowFailed \<Rightarrow> (Inl ShowError, tr1 @ [Present MenuSurface])
             | Closed selected \<Rightarrow> (Inr selected, tr1 @ [Present MenuSurface])))
       tr"

text \<open>
  \<open>showPickerDialog\<close>: the items at the picked indexes, \<open>None\<close> (undefined) when
  cancelled or dismissed.
\<close>

definition showPickerDialog ::
  "'a list \<Rightarrow> bool option \<Rightarrow> nat list option shown \<Rightarrow> ui_event list
     \<Rightarrow> (uierror + 'a list option) \<times> ui_event list" where
  "showPickerDialog items token outcome tr =
     mutex_use
       (\<lambda>tr1.
          if token \<noteq> None \<and> token = Some True then (Inr None, tr1)
          else
            (case outcome of
               ShowFailed \<Rightarrow> (Inl ShowError, tr1 @ [Present PickerSurface])
             | Closed None \<Rightarrow> (Inr None, tr1 @ [Present PickerSurface])
             | Closed (Some picked) \<Rightarrow>
                 (Inr (Some (map fst (filter (\<lambda>(x, k). k \<in> set picked)
                                        (zip items [0..<length items])))),
                  tr1 @ [Present PickerSurface])))
       tr"

section \<open>The reconciler as the spec words it\<close>

text \<open>
  The 4-field comparison: group, line, start column and end column.
\<close>

definition same_fields :: "HighlightItem \<Rightarrow> HighlightItemResult \<Rightarrow> bool" where
  "same_fields item cur =
     (hlGroup item = res_hlGroup cur \<and> lnum item = res_lnum cur
      \<and> colStart item = res_colStart cur \<and> colEnd item = res_colEnd cur)"

text \<open>
  The length of the longest common prefix of a line's desired items and existing records
  under the 4-field comparison.
\<close>

fun common_prefix_len :: "HighlightItem list \<Rightarrow> HighlightItemResult list \<Rightarrow> nat" where
  "common_prefix_len (a # as) (e # es) =
     (if same_fields a e then Suc (common_prefix_len as es) else 0)"
| "common_prefix_len as es = 0"

text \<open>
  The maximal run of consecutive items on line \<open>i\<close> that starts at the cursor \<open>idx\<close>.
\<close>

definition run_at :: "nat \<Rightarrow> nat \<Rightarrow> HighlightItem list \<Rightarrow> HighlightItem list" where
  "run_at i idx items = takeWhile (\<lambda>x. lnum x = i) (drop idx items)"

text \<open>
  What one line contributes to the diff, as lines to clear, markers to remove and entries
  to add, in the spec's cases A (stale records), B (pure insertion) and C (both present).
\<close>

definition line_change ::
  "bool \<Rightarrow> nat \<Rightarrow> HighlightItemResult list \<Rightarrow> HighlightItem list
     \<Rightarrow> nat list \<times> nat list \<times> HighlightItemDef list" where
  "line_change markerCapable i existing added =
     (if added = [] then
        (if existing = [] then ([], [], [])
         else if markerCapable then ([], map res_id existing, [])
         else ([i], [], []))
      else if existing = [] then ([], [], map convertHighlightItem added)
      else
        (let k = common_prefix_len added existing
         in if markerCapable then
              ([], map res_id (drop k existing), map convertHighlightItem (drop k added))
            else if k = length added \<and> k = length existing then ([], [], [])
            else ([i], [], map convertHighlightItem added)))"

text \<open>The snapshot's records of one line, in the order the backend reported.\<close>

definition records_on :: "nat \<Rightarrow> HighlightItemResult list \<Rightarrow> HighlightItemResult list" where
  "records_on i cur = filter (\<lambda>r. res_lnum r = i) cur"

text \<open>The desired items of one line, in order.\<close>

definition items_on :: "nat \<Rightarrow> HighlightItem list \<Rightarrow> HighlightItem list" where
  "items_on i items = filter (\<lambda>x. lnum x = i) items"

text \<open>The highest line of the snapshot, 0 for an empty one.\<close>

definition max_line :: "HighlightItemResult list \<Rightarrow> nat" where
  "max_line cur = fold (\<lambda>r mx. max mx (res_lnum r)) cur 0"

text \<open>The first line scanned: the region's start, or 0 without a region.\<close>

definition scan_start :: "(nat \<times> nat) option \<Rightarrow> nat" where
  "scan_start region = (case region of Some (a, b) \<Rightarrow> a | None \<Rightarrow> 0)"

text \<open>
  What the lines \<open>start, \<dots>, maxLnum\<close> contribute together: the contributions of the lines,
  one after the other.
\<close>

definition lines_change ::
  "bool \<Rightarrow> HighlightItemResult list \<Rightarrow> HighlightItem list \<Rightarrow> nat list
     \<Rightarrow> nat list \<times> nat list \<times> HighlightItemDef list" where
  "lines_change markerCapable cur items ls =
     (concat (map (\<lambda>i. fst (line_change markerCapable i (records_on i cur) (items_on i items))) ls),
      concat (map (\<lambda>i. fst (snd (line_change markerCapable i (records_on i cur) (items_on i items)))) ls),
      concat (map (\<lambda>i. snd (snd (line_change markerCapable i (records_on i cur) (items_on i items)))) ls))"

text \<open>
  The three parts of what a list of lines contributes (lines to clear, markers to remove,
  entries to add), and the entries of the items beyond the snapshot's highest line, which
  the final loop appends.
\<close>

definition cleared_on ::
  "bool \<Rightarrow> HighlightItemResult list \<Rightarrow> HighlightItem list \<Rightarrow> nat list \<Rightarrow> nat list" where
  "cleared_on markerCapable cur items ls = fst (lines_change markerCapable cur items ls)"

definition markers_on ::
  "bool \<Rightarrow> HighlightItemResult list \<Rightarrow> HighlightItem list \<Rightarrow> nat list \<Rightarrow> nat list" where
  "markers_on markerCapable cur items ls = fst (snd (lines_change markerCapable cur items ls))"

definition entries_on ::
  "bool \<Rightarrow> HighlightItemResult list \<Rightarrow> HighlightItem list \<Rightarrow> nat list
     \<Rightarrow> HighlightItemDef list" where
  "entries_on markerCapable cur items ls = snd (snd (lines_change markerCapable cur items ls))"

definition beyond_snapshot ::
  "HighlightItemResult list \<Rightarrow> HighlightItem list \<Rightarrow> HighlightItemDef list" where
  "beyond_snapshot cur items =
     map convertHighlightItem (filter (\<lambda>x. max_line cur < lnum x) (sort_key lnum items))"

text \<open>
  A snapshot is consistent with the desired items when, on every line, its records equal
  the line's desired items under the 4-field comparison, in order. Only the lines that
  occur need to be looked at.
\<close>

definition consistent :: "HighlightItem list \<Rightarrow> HighlightItemResult list \<Rightarrow> bool" where
  "consistent items cur =
     list_all (\<lambda>l. list_all2 same_fields (filter (\<lambda>x. lnum x = l) items) (records_on l cur))
       (map lnum items @ map res_lnum cur)"

text \<open>
  The backend commands of a diff in the order the spec fixes: delete-by-marker, then
  clear-lines, then set-entries, each only for a non-empty list.
\<close>

definition apply_calls :: "nat \<Rightarrow> string \<Rightarrow> int \<Rightarrow> HighlightDiff \<Rightarrow> nvim_event list" where
  "apply_calls bufnr ns priority diff =
     (if removeMarkers diff \<noteq> []
      then [CallNotify ''coc#highlight#del_markers''
              [JNum (int bufnr), JStr ns, num_array (removeMarkers diff)]]
      else [])
     @ (if remove diff \<noteq> []
        then [CallNotify ''coc#highlight#clear''
                [JNum (int bufnr), JStr ns, num_array (remove diff)]]
        else [])
     @ (if add diff \<noteq> []
        then [CallNotify ''coc#highlight#set''
                [JNum (int bufnr), JStr ns, JArr (map JArr (add diff)), JNum priority]]
        else [])"

text \<open>
  What holds of the locals before line \<open>j\<close> is scanned, whatever the order of the items:
  the cursor is within the items; the lines to clear are increasing, scanned already and
  have records; the markers to remove belong to records of scanned lines, each at most once
  if the snapshot's markers are distinct; the consumed items and the added entries belong
  to scanned lines.
\<close>

definition scan_inv ::
  "nat \<Rightarrow> HighlightItemResult list \<Rightarrow> HighlightItem list \<Rightarrow> nat \<Rightarrow> diff_state \<Rightarrow> bool" where
  "scan_inv start cur items j s =
     (itemIndex s \<le> length items
      \<and> sorted_wrt (<) (linesToRemove s)
      \<and> (\<forall>l\<in>set (linesToRemove s). start \<le> l \<and> l < j \<and> records_on l cur \<noteq> [])
      \<and> (distinct (map res_id cur) \<longrightarrow> distinct (markersToRemove s))
      \<and> (\<forall>mk\<in>set (markersToRemove s).
            \<exists>r\<in>set cur. res_id r = mk \<and> start \<le> res_lnum r \<and> res_lnum r < j)
      \<and> (\<forall>k<itemIndex s. start \<le> lnum (items ! k) \<and> lnum (items ! k) < j)
      \<and> (\<forall>e\<in>set (newItems s).
            \<exists>x\<in>set items. e = convertHighlightItem x \<and> start \<le> lnum x \<and> lnum x < j))"

section \<open>Inputs of the examples\<close>

text \<open>
  Items and records that agree under the 4-field comparison (\<open>item_at\<close>, \<open>record_at\<close>),
  items and records with a group and a column of their own (\<open>item_of\<close>, \<open>record_of\<close>),
  backends that answer with a fixed snapshot, a workspace with markers and one without.
\<close>

definition item_at :: "nat \<Rightarrow> HighlightItem" where
  "item_at l = \<lparr>hlGroup = ''Search'', lnum = l, colStart = 0, colEnd = 4, combine = True,
                start_incl = False, end_incl = False\<rparr>"

definition record_at :: "nat \<Rightarrow> nat \<Rightarrow> HighlightItemResult" where
  "record_at l mk = \<lparr>res_hlGroup = ''Search'', res_lnum = l, res_colStart = 0, res_colEnd = 4,
                      res_id = mk\<rparr>"

definition item_of :: "string \<Rightarrow> nat \<Rightarrow> nat \<Rightarrow> HighlightItem" where
  "item_of g l c = \<lparr>hlGroup = g, lnum = l, colStart = c, colEnd = c + 2, combine = False,
                   start_incl = False, end_incl = False\<rparr>"

definition record_of :: "string \<Rightarrow> nat \<Rightarrow> nat \<Rightarrow> nat \<Rightarrow> HighlightItemResult" where
  "record_of g l c mk = \<lparr>res_hlGroup = g, res_lnum = l, res_colStart = c, res_colEnd = c + 2,
                        res_id = mk\<rparr>"

definition no_highlights :: "string \<Rightarrow> jsval list \<Rightarrow> HighlightItemResult list option reply" where
  "no_highlights method args = Resolved (Some [])"

definition nvim_ws :: workspace where
  "nvim_ws = \<lparr>has = (\<lambda>feature. True), isVim = False\<rparr>"

definition old_nvim_ws :: workspace where
  "old_nvim_ws = \<lparr>has = (\<lambda>feature. False), isVim = False\<rparr>"

definition full_diff :: HighlightDiff where
  "full_diff = \<lparr>remove = [3], add = [convertHighlightItem (item_at 3)], removeMarkers = [7, 8]\<rparr>"

definition empty_diff :: HighlightDiff where
  "empty_diff = \<lparr>remove = [], add = [], removeMarkers = []\<rparr>"

definition stale :: "HighlightItemResult list" where
  "stale = [record_at 1 7, record_at 3 8, record_at 3 9]"

definition stale_highlights ::
  "string \<Rightarrow> jsval list \<Rightarrow> HighlightItemResult list option reply" where
  "stale_highlights method args = Resolved (Some stale)"

definition in_region :: "HighlightItemResult list" where
  "in_region = [record_at 3 7, record_at 4 8]"

definition region_highlights ::
  "string \<Rightarrow> jsval list \<Rightarrow> HighlightItemResult list option reply" where
  "region_highlights method args = Resolved (Some in_region)"

definition settled :: "HighlightItemResult list" where
  "settled = [record_at 5 21, record_at 2 22, record_at 5 23]"

definition settled_highlights ::
  "string \<Rightarrow> jsval list \<Rightarrow> HighlightItemResult list option reply" where
  "settled_highlights method args = Resolved (Some settled)"

definition prefix_snapshot :: "HighlightItemResult list" where
  "prefix_snapshot =
     [record_of ''V'' 0 0 10, record_of ''X'' 2 0 11, record_of ''Y'' 2 3 12,
      record_of ''Z'' 2 6 13]"

definition prefix_items :: "HighlightItem list" where
  "prefix_items = [item_of ''U'' 5 0, item_of ''X'' 2 0, item_of ''Y'' 2 3, item_of ''W'' 2 6]"

definition prefix_highlights ::
  "string \<Rightarrow> jsval list \<Rightarrow> HighlightItemResult list option reply" where
  "prefix_highlights method args = Resolved (Some prefix_snapshot)"

definition longer_snapshot :: "HighlightItemResult list" where
  "longer_snapshot = [record_of ''V'' 0 0 10, record_of ''X'' 4 0 11, record_of ''Y'' 4 3 12]"

definition longer_items :: "HighlightItem list" where
  "longer_items = [item_of ''U'' 5 0, item_of ''X'' 4 0, item_of ''Y'' 4 3, item_of ''W'' 4 6]"

definition longer_highlights ::
  "string \<Rightarrow> jsval list \<Rightarrow> HighlightItemResult list option reply" where
  "longer_highlights method args = Resolved (Some longer_snapshot)"

text \<open>
  An instance of the helper \<open>isFalsyOrEmpty\<close>: true of an empty array and of whatever is
  not an array.
\<close>

definition empty_or_not_array :: "items_arg \<Rightarrow> bool" where
  "empty_or_not_array arg = (case arg of ItemArray xs \<Rightarrow> xs = [] | ItemPromise p \<Rightarrow> True)"

text \<open>Another instance, true of the empty array only.\<close>

definition empty_array :: "items_arg \<Rightarrow> bool" where
  "empty_array arg = (case arg of ItemArray xs \<Rightarrow> xs = [] | ItemPromise p \<Rightarrow> False)"

section \<open>The loops, in closed form\<close>

lemma isSame_iff: "isSame item cur = same_fields item cur"
  by (auto simp: isSame_def same_fields_def equals_def slice_def result_array_def Let_def)

lemma collect_added_eq:
  "j \<le> length items \<Longrightarrow>
   collect_added items (int (length items) - 1) i j (j, added)
     = (j + length (run_at i j items), added @ run_at i j items)"
proof (induction "length items - j" arbitrary: j added)
  case 0
  then have "j = length items" by simp
  then show ?case
    by (subst collect_added.simps) (simp add: run_at_def)
next
  case (Suc n)
  then have lt: "j < length items" by simp
  then have dr: "drop j items = items ! j # drop (Suc j) items"
    by (simp add: Cons_nth_drop_Suc)
  show ?case
  proof (cases "lnum (items ! j) = i")
    case True
    have "collect_added items (int (length items) - 1) i (Suc j) (Suc j, added @ [items ! j])
          = (Suc j + length (run_at i (Suc j) items), (added @ [items ! j]) @ run_at i (Suc j) items)"
      using Suc(1)[of "Suc j" "added @ [items ! j]"] Suc(2) lt by simp
    then show ?thesis
      using True lt dr
      by (subst collect_added.simps) (simp add: run_at_def Let_def)
  next
    case False
    then show ?thesis using lt dr
      by (subst collect_added.simps) (simp add: run_at_def Let_def)
  qed
qed

lemma skip_loop_eq:
  "skip \<le> length added \<Longrightarrow> skip \<le> length existing \<Longrightarrow>
   skip_loop added existing (min (length existing) (length added)) skip
     = skip + common_prefix_len (drop skip added) (drop skip existing)"
proof (induction added existing "min (length existing) (length added)" skip
       rule: skip_loop.induct)
  case (1 added existing skip)
  show ?case
  proof (cases "skip < min (length existing) (length added)")
    case True
    then have da: "drop skip added = added ! skip # drop (Suc skip) added"
      and de: "drop skip existing = existing ! skip # drop (Suc skip) existing"
      by (simp_all add: Cons_nth_drop_Suc)
    show ?thesis
    proof (cases "isSame (added ! skip) (existing ! skip)")
      case same: True
      have "skip_loop added existing (min (length existing) (length added)) (skip + 1)
            = skip + 1 + common_prefix_len (drop (skip + 1) added) (drop (skip + 1) existing)"
        using 1(1) True same by simp
      then show ?thesis using True same da de
        by (subst skip_loop.simps) (simp add: isSame_iff)
    next
      case False
      then show ?thesis using True da de
        by (subst skip_loop.simps) (simp add: isSame_iff)
    qed
  next
    case False
    then have "drop skip added = [] \<or> drop skip existing = []"
      using 1(2,3) by auto
    then have "common_prefix_len (drop skip added) (drop skip existing) = 0"
      by (cases "drop skip added") auto
    then show ?thesis using False
      by (subst skip_loop.simps) auto
  qed
qed

lemma common_prefix_len_le:
  "common_prefix_len as es \<le> length as \<and> common_prefix_len as es \<le> length es"
  by (induction as es rule: common_prefix_len.induct) auto

lemma common_prefix_len_same:
  "j < common_prefix_len as es \<Longrightarrow> same_fields (as ! j) (es ! j)"
proof (induction as es arbitrary: j rule: common_prefix_len.induct)
  case (1 a as e es)
  then show ?case by (cases j) (auto split: if_splits)
qed auto

lemma common_prefix_len_stop:
  "common_prefix_len as es < length as \<Longrightarrow> common_prefix_len as es < length es \<Longrightarrow>
   \<not> same_fields (as ! common_prefix_len as es) (es ! common_prefix_len as es)"
  by (induction as es rule: common_prefix_len.induct) auto

lemma common_prefix_len_full:
  "(common_prefix_len as es = length as \<and> common_prefix_len as es = length es)
     = list_all2 same_fields as es"
  by (induction as es rule: common_prefix_len.induct)
     (auto simp: list_all2_Cons1 list_all2_Cons2)

lemma every_same_iff:
  "length added = length existing \<Longrightarrow>
   every_same added existing = list_all2 same_fields added existing"
  by (auto simp: every_same_def list_all_iff list_all2_conv_all_nth isSame_iff)

lemma reconcile_line_eq:
  "reconcile_line checkMarkers i existing added st =
     (case line_change checkMarkers i existing added of
        (ls, ms, ns) \<Rightarrow>
          st\<lparr>linesToRemove := linesToRemove st @ ls,
             markersToRemove := markersToRemove st @ ms,
             newItems := newItems st @ ns\<rparr>)"
proof -
  have k: "skip_loop added existing (min (length existing) (length added)) 0
           = common_prefix_len added existing"
    using skip_loop_eq[of 0 added existing] by simp
  have ev: "length added = length existing \<Longrightarrow>
            every_same added existing
              = (common_prefix_len added existing = length added
                 \<and> common_prefix_len added existing = length existing)"
    using every_same_iff[of added existing] common_prefix_len_full[of added existing]
    by blast
  show ?thesis
  proof (cases "added = []")
    case True
    then show ?thesis by (simp add: reconcile_line_def line_change_def)
  next
    case False
    note a = this
    show ?thesis
    proof (cases "existing = []")
      case True
      then show ?thesis using a by (simp add: reconcile_line_def line_change_def)
    next
      case False
      show ?thesis
      proof (cases checkMarkers)
        case True
        then show ?thesis using a False k
          by (simp add: reconcile_line_def line_change_def Let_def)
      next
        case cm: False
        show ?thesis
        proof (cases "length added = length existing")
          case True
          then show ?thesis using a False cm ev
            by (auto simp: reconcile_line_def line_change_def Let_def)
        next
          case ne: False
          then have "\<not> (common_prefix_len added existing = length added
                 \<and> common_prefix_len added existing = length existing)" by auto
          then show ?thesis using a False cm ne
            by (auto simp: reconcile_line_def line_change_def Let_def)
        qed
      qed
    qed
  qed
qed

lemma loop_body_eq:
  assumes "itemIndex st \<le> length items"
  shows "loop_body checkMarkers m items (int (length items) - 1) i st =
     (case line_change checkMarkers i (defaultValue (m i) []) (run_at i (itemIndex st) items) of
        (ls, ms, ns) \<Rightarrow>
          \<lparr>linesToRemove = linesToRemove st @ ls,
           markersToRemove = markersToRemove st @ ms,
           newItems = newItems st @ ns,
           itemIndex = itemIndex st + length (run_at i (itemIndex st) items)\<rparr>)"
  using assms
  by (simp add: loop_body_def collect_added_eq[where added = "[]", simplified] reconcile_line_eq
           split: prod.splits)

lemma tail_loop_eq:
  "i \<le> length items \<Longrightarrow>
   tail_loop items (int (length items) - 1) i acc = acc @ map convertHighlightItem (drop i items)"
proof (induction "length items - i" arbitrary: i acc)
  case 0
  then show ?case by (subst tail_loop.simps) simp
next
  case (Suc n)
  then have lt: "i < length items" by simp
  then have dr: "drop i items = items ! i # drop (Suc i) items"
    by (simp add: Cons_nth_drop_Suc)
  have "tail_loop items (int (length items) - 1) (Suc i) (acc @ [convertHighlightItem (items ! i)])
        = (acc @ [convertHighlightItem (items ! i)]) @ map convertHighlightItem (drop (Suc i) items)"
    using Suc(1)[of "Suc i"] Suc(2) lt by simp
  then show ?case using lt dr
    by (subst tail_loop.simps) simp
qed

lemma defaultValue_simps [simp]:
  "defaultValue None d = d" "defaultValue (Some x) d = x"
  by (simp_all add: defaultValue_def)

lemma group_step_eq:
  "group_step r (mx, m) =
     (max mx (res_lnum r), m(res_lnum r \<mapsto> defaultValue (m (res_lnum r)) [] @ [r]))"
  by (simp add: group_step_def split: option.split)

lemma fold_group_step:
  "fold group_step cur (mx, m) =
     (fold (\<lambda>r mx. max mx (res_lnum r)) cur mx,
      (\<lambda>i. if records_on i cur = [] then m i
           else Some (defaultValue (m i) [] @ records_on i cur)))"
proof (induction cur arbitrary: mx m)
  case Nil
  then show ?case by (simp add: records_on_def)
next
  case (Cons r cur)
  have "fold group_step (r # cur) (mx, m) =
        fold group_step cur
          (max mx (res_lnum r), m(res_lnum r \<mapsto> defaultValue (m (res_lnum r)) [] @ [r]))"
    by (simp add: group_step_eq)
  also have "\<dots> =
        (fold (\<lambda>r mx. max mx (res_lnum r)) cur (max mx (res_lnum r)),
         (\<lambda>i. if records_on i cur = []
              then (m(res_lnum r \<mapsto> defaultValue (m (res_lnum r)) [] @ [r])) i
              else Some (defaultValue
                           ((m(res_lnum r \<mapsto> defaultValue (m (res_lnum r)) [] @ [r])) i) []
                         @ records_on i cur)))"
    by (rule Cons.IH)
  also have "\<dots> =
        (fold (\<lambda>r mx. max mx (res_lnum r)) (r # cur) mx,
         (\<lambda>i. if records_on i (r # cur) = [] then m i
              else Some (defaultValue (m i) [] @ records_on i (r # cur))))"
    by (auto simp: fun_eq_iff records_on_def)
  finally show ?case .
qed

lemma group_curr_eq:
  "group_curr cur =
     (max_line cur, (\<lambda>i. if records_on i cur = [] then None else Some (records_on i cur)))"
  by (simp add: group_curr_def fold_group_step max_line_def fun_eq_iff)

lemma fold_max_ge: "mx \<le> fold (\<lambda>r mx. max mx (res_lnum r)) cur mx"
proof (induction cur arbitrary: mx)
  case (Cons r cur)
  have "mx \<le> max mx (res_lnum r)" by simp
  also have "\<dots> \<le> fold (\<lambda>r mx. max mx (res_lnum r)) cur (max mx (res_lnum r))" by (rule Cons)
  finally show ?case by simp
qed simp

lemma fold_max_bound:
  "r \<in> set cur \<Longrightarrow> res_lnum r \<le> fold (\<lambda>r mx. max mx (res_lnum r)) cur mx"
proof (induction cur arbitrary: mx)
  case (Cons a cur)
  show ?case
  proof (cases "r = a")
    case True
    have "res_lnum a \<le> max mx (res_lnum a)" by simp
    also have "\<dots> \<le> fold (\<lambda>r mx. max mx (res_lnum r)) cur (max mx (res_lnum a))"
      by (rule fold_max_ge)
    finally show ?thesis using True by simp
  next
    case False
    with Cons show ?thesis by simp
  qed
qed simp

lemma fold_max_lt:
  "mx < b \<Longrightarrow> \<forall>r\<in>set cur. res_lnum r < b \<Longrightarrow>
   fold (\<lambda>r mx. max mx (res_lnum r)) cur mx < b"
  by (induction cur arbitrary: mx) auto

lemma max_line_ge: "r \<in> set cur \<Longrightarrow> res_lnum r \<le> max_line cur"
  by (simp add: max_line_def fold_max_bound)

lemma max_line_lt:
  assumes "cur \<noteq> []" "\<forall>r\<in>set cur. res_lnum r < b"
  shows "max_line cur < b"
proof -
  from assms obtain r where "r \<in> set cur" by (cases cur) auto
  with assms have "0 < b" by force
  then show ?thesis using assms by (simp add: max_line_def fold_max_lt)
qed

lemma diff_loop_invariant:
  assumes "P i st"
    and "\<And>j s. i \<le> j \<Longrightarrow> j \<le> maxLnum \<Longrightarrow> P j s
           \<Longrightarrow> P (Suc j) (loop_body checkMarkers m items maxIndex j s)"
  shows "P (max i (Suc maxLnum)) (diff_loop checkMarkers m items maxIndex maxLnum i st)"
  using assms
proof (induction "Suc maxLnum - i" arbitrary: i st)
  case 0
  then have "max i (Suc maxLnum) = i" "\<not> i \<le> maxLnum" by auto
  then show ?case using 0(2) by (subst diff_loop.simps) simp
next
  case (Suc n)
  then have le: "i \<le> maxLnum" by simp
  have "P (max (Suc i) (Suc maxLnum))
          (diff_loop checkMarkers m items maxIndex maxLnum (Suc i)
             (loop_body checkMarkers m items maxIndex i st))"
  proof (rule Suc(1))
    show "n = Suc maxLnum - Suc i" using Suc(2) by simp
    show "P (Suc i) (loop_body checkMarkers m items maxIndex i st)"
      using Suc(4)[of i st] le Suc(3) by simp
    show "\<And>j s. Suc i \<le> j \<Longrightarrow> j \<le> maxLnum \<Longrightarrow> P j s
           \<Longrightarrow> P (Suc j) (loop_body checkMarkers m items maxIndex j s)"
      using Suc(4) by simp
  qed
  moreover have "max (Suc i) (Suc maxLnum) = max i (Suc maxLnum)" using le by simp
  ultimately show ?case using le by (subst diff_loop.simps) simp
qed

lemma line_change_props:
  assumes "line_change cm i ex ad = (ls, ms, ns)"
  shows "ls = [] \<or> (ls = [i] \<and> ex \<noteq> [])"
    and "\<exists>k. ms = map res_id (drop k ex)"
    and "\<exists>k. ns = map convertHighlightItem (drop k ad)"
proof -
  show "ls = [] \<or> (ls = [i] \<and> ex \<noteq> [])"
    using assms by (auto simp: line_change_def Let_def split: if_splits)
  have "ms = map res_id (drop (length ex) ex) \<or> ms = map res_id (drop 0 ex)
        \<or> ms = map res_id (drop (common_prefix_len ad ex) ex)"
    using assms by (auto simp: line_change_def Let_def split: if_splits)
  then show "\<exists>k. ms = map res_id (drop k ex)" by blast
  have "ns = map convertHighlightItem (drop (length ad) ad)
        \<or> ns = map convertHighlightItem (drop 0 ad)
        \<or> ns = map convertHighlightItem (drop (common_prefix_len ad ex) ad)"
    using assms by (auto simp: line_change_def Let_def split: if_splits)
  then show "\<exists>k. ns = map convertHighlightItem (drop k ad)" by blast
qed

lemma run_at_length: "idx + length (run_at j idx items) \<le> length items \<or> length items < idx"
proof -
  have "length (run_at j idx items) \<le> length (drop idx items)"
    unfolding run_at_def by (rule length_takeWhile_le)
  then show ?thesis by auto
qed

lemma run_at_nth:
  assumes "k < length (run_at j idx items)"
  shows "lnum (items ! (idx + k)) = j"
proof -
  have "run_at j idx items ! k \<in> set (run_at j idx items)" using assms by simp
  then have "lnum (run_at j idx items ! k) = j"
    unfolding run_at_def by (auto dest: set_takeWhileD)
  moreover have "run_at j idx items ! k = drop idx items ! k"
    using assms unfolding run_at_def by (simp add: takeWhile_nth)
  moreover have "k < length (drop idx items)"
    using assms length_takeWhile_le[of "\<lambda>x. lnum x = j" "drop idx items"]
    unfolding run_at_def by simp
  ultimately show ?thesis by simp
qed

lemma loop_body_step:
  assumes "itemIndex s \<le> length items"
  obtains ls ms ns where
    "loop_body cm (snd (group_curr cur)) items (int (length items) - 1) j s
       = \<lparr>linesToRemove = linesToRemove s @ ls,
          markersToRemove = markersToRemove s @ ms,
          newItems = newItems s @ ns,
          itemIndex = itemIndex s + length (run_at j (itemIndex s) items)\<rparr>"
    and "ls = [] \<or> (ls = [j] \<and> records_on j cur \<noteq> [])"
    and "\<exists>k. ms = map res_id (drop k (records_on j cur))"
    and "\<exists>k. ns = map convertHighlightItem (drop k (run_at j (itemIndex s) items))"
proof -
  have ex: "defaultValue (snd (group_curr cur) j) [] = records_on j cur"
    by (simp add: group_curr_eq)
  obtain ls ms ns where
    lc: "line_change cm j (records_on j cur) (run_at j (itemIndex s) items) = (ls, ms, ns)"
    by (cases "line_change cm j (records_on j cur) (run_at j (itemIndex s) items)") auto
  show thesis
  proof (rule that[of ls ms ns])
    show "loop_body cm (snd (group_curr cur)) items (int (length items) - 1) j s
       = \<lparr>linesToRemove = linesToRemove s @ ls,
          markersToRemove = markersToRemove s @ ms,
          newItems = newItems s @ ns,
          itemIndex = itemIndex s + length (run_at j (itemIndex s) items)\<rparr>"
      using assms by (simp add: loop_body_eq ex lc)
  qed (use line_change_props[OF lc] in auto)
qed

lemma scan_inv_step:
  assumes inv: "scan_inv start cur items j s" and sj: "start \<le> j"
  shows "scan_inv start cur items (Suc j)
           (loop_body cm (snd (group_curr cur)) items (int (length items) - 1) j s)"
proof -
  from inv have idx: "itemIndex s \<le> length items" by (simp add: scan_inv_def)
  obtain ls ms ns where
    body: "loop_body cm (snd (group_curr cur)) items (int (length items) - 1) j s
       = \<lparr>linesToRemove = linesToRemove s @ ls,
          markersToRemove = markersToRemove s @ ms,
          newItems = newItems s @ ns,
          itemIndex = itemIndex s + length (run_at j (itemIndex s) items)\<rparr>"
    and ls: "ls = [] \<or> (ls = [j] \<and> records_on j cur \<noteq> [])"
    and ms: "\<exists>k. ms = map res_id (drop k (records_on j cur))"
    and ns: "\<exists>k. ns = map convertHighlightItem (drop k (run_at j (itemIndex s) items))"
    using loop_body_step[OF idx, of cm cur j] by metis
  from ms obtain k where msk: "ms = map res_id (drop k (records_on j cur))" by blast
  have ms_in: "\<forall>mk\<in>set ms. \<exists>r\<in>set cur. res_id r = mk \<and> res_lnum r = j"
  proof
    fix mk assume "mk \<in> set ms"
    then obtain r where "r \<in> set (drop k (records_on j cur))" "res_id r = mk"
      using msk by auto
    then have "r \<in> set (records_on j cur)" by (auto dest: in_set_dropD)
    then show "\<exists>r\<in>set cur. res_id r = mk \<and> res_lnum r = j"
      using \<open>res_id r = mk\<close> by (auto simp: records_on_def)
  qed
  have c1: "itemIndex s + length (run_at j (itemIndex s) items) \<le> length items"
    using run_at_length[of "itemIndex s" j items] idx by auto
  have c2: "sorted_wrt (<) (linesToRemove s @ ls)"
    using inv ls by (auto simp: scan_inv_def sorted_wrt_append)
  have c3: "\<forall>l\<in>set (linesToRemove s @ ls). start \<le> l \<and> l < Suc j \<and> records_on l cur \<noteq> []"
    using inv ls sj by (auto simp: scan_inv_def less_Suc_eq)
  have c4: "distinct (map res_id cur) \<longrightarrow> distinct (markersToRemove s @ ms)"
  proof
    assume d: "distinct (map res_id cur)"
    then have inj: "inj_on res_id (set cur)" by (simp add: distinct_map)
    have "distinct (map res_id (records_on j cur))"
      unfolding records_on_def using d by (rule distinct_map_filter)
    then have dm: "distinct ms"
      unfolding msk by (simp add: drop_map[symmetric] del: drop_map)
    have "set (markersToRemove s) \<inter> set ms = {}"
    proof (rule ccontr)
      assume "set (markersToRemove s) \<inter> set ms \<noteq> {}"
      then obtain mk where a: "mk \<in> set (markersToRemove s)" and b: "mk \<in> set ms" by auto
      from a inv obtain r1 where r1: "r1 \<in> set cur" "res_id r1 = mk" "res_lnum r1 < j"
        by (auto simp: scan_inv_def)
      from b ms_in obtain r2 where r2: "r2 \<in> set cur" "res_id r2 = mk" "res_lnum r2 = j"
        by auto
      from inj r1 r2 have "r1 = r2" by (auto dest: inj_onD)
      with r1 r2 show False by simp
    qed
    with dm inv d show "distinct (markersToRemove s @ ms)" by (simp add: scan_inv_def)
  qed
  have c5: "\<forall>mk\<in>set (markersToRemove s @ ms).
              \<exists>r\<in>set cur. res_id r = mk \<and> start \<le> res_lnum r \<and> res_lnum r < Suc j"
  proof
    fix mk assume "mk \<in> set (markersToRemove s @ ms)"
    then consider "mk \<in> set (markersToRemove s)" | "mk \<in> set ms" by auto
    then show "\<exists>r\<in>set cur. res_id r = mk \<and> start \<le> res_lnum r \<and> res_lnum r < Suc j"
    proof cases
      case 1
      with inv obtain r where "r \<in> set cur" "res_id r = mk" "start \<le> res_lnum r" "res_lnum r < j"
        by (auto simp: scan_inv_def)
      then show ?thesis by (auto simp: less_Suc_eq)
    next
      case 2
      with ms_in sj show ?thesis by auto
    qed
  qed
  have c6: "\<forall>n<itemIndex s + length (run_at j (itemIndex s) items).
              start \<le> lnum (items ! n) \<and> lnum (items ! n) < Suc j"
  proof (intro allI impI)
    fix n assume n: "n < itemIndex s + length (run_at j (itemIndex s) items)"
    show "start \<le> lnum (items ! n) \<and> lnum (items ! n) < Suc j"
    proof (cases "n < itemIndex s")
      case True
      with inv show ?thesis by (auto simp: scan_inv_def less_Suc_eq)
    next
      case False
      then have "n - itemIndex s < length (run_at j (itemIndex s) items)" using n by simp
      then have "lnum (items ! (itemIndex s + (n - itemIndex s))) = j" by (rule run_at_nth)
      with False sj show ?thesis by simp
    qed
  qed
  have ns_in: "\<forall>e\<in>set ns. \<exists>x\<in>set items. e = convertHighlightItem x \<and> lnum x = j"
  proof
    fix e assume "e \<in> set ns"
    then obtain k x where "x \<in> set (drop k (run_at j (itemIndex s) items))"
      "e = convertHighlightItem x" using ns by auto
    then have x: "x \<in> set (run_at j (itemIndex s) items)" by (auto dest: in_set_dropD)
    then have "lnum x = j" unfolding run_at_def by (auto dest: set_takeWhileD)
    moreover have "x \<in> set items"
      using x unfolding run_at_def by (auto dest: set_takeWhileD in_set_dropD)
    ultimately show "\<exists>x\<in>set items. e = convertHighlightItem x \<and> lnum x = j"
      using \<open>e = convertHighlightItem x\<close> by auto
  qed
  have c7: "\<forall>e\<in>set (newItems s @ ns).
              \<exists>x\<in>set items. e = convertHighlightItem x \<and> start \<le> lnum x \<and> lnum x < Suc j"
  proof
    fix e assume "e \<in> set (newItems s @ ns)"
    then consider "e \<in> set (newItems s)" | "e \<in> set ns" by auto
    then show "\<exists>x\<in>set items. e = convertHighlightItem x \<and> start \<le> lnum x \<and> lnum x < Suc j"
    proof cases
      case 1
      with inv obtain x where "x \<in> set items" "e = convertHighlightItem x"
        "start \<le> lnum x" "lnum x < j"
        unfolding scan_inv_def by blast
      then show ?thesis by (auto simp: less_Suc_eq)
    next
      case 2
      with ns_in sj show ?thesis by auto
    qed
  qed
  show ?thesis
    unfolding body scan_inv_def using c1 c2 c3 c4 c5 c6 c7 by simp
qed

lemma scan_lines_inv:
  "scan_inv (scan_start region) cur items
     (max (scan_start region) (Suc (max_line cur))) (scan_lines cm cur items region)"
proof -
  let ?st0 = "\<lparr>linesToRemove = [], markersToRemove = [], newItems = [], itemIndex = 0\<rparr>"
  let ?start = "scan_start region"
  have init: "scan_inv ?start cur items j ?st0" for j by (simp add: scan_inv_def)
  show ?thesis
  proof (cases "cur = []")
    case True
    then show ?thesis using init by (simp add: scan_lines_def group_curr_eq)
  next
    case False
    have "scan_inv ?start cur items (max ?start (Suc (max_line cur)))
            (diff_loop cm (snd (group_curr cur)) items (int (length items) - 1) (max_line cur)
               ?start ?st0)"
      by (rule diff_loop_invariant[where P = "scan_inv ?start cur items"])
         (auto intro: init scan_inv_step)
    moreover have "scan_lines cm cur items region
            = diff_loop cm (snd (group_curr cur)) items (int (length items) - 1) (max_line cur)
               ?start ?st0"
      using False
      by (simp add: scan_lines_def group_curr_eq scan_start_def split: option.splits)
    ultimately show ?thesis by simp
  qed
qed

lemma reconcile_eq:
  "reconcile cm cur items region =
     \<lparr>remove = linesToRemove (scan_lines cm cur items region),
      add = newItems (scan_lines cm cur items region)
            @ map convertHighlightItem (drop (itemIndex (scan_lines cm cur items region)) items),
      removeMarkers = markersToRemove (scan_lines cm cur items region)\<rparr>"
proof -
  have "itemIndex (scan_lines cm cur items region) \<le> length items"
    using scan_lines_inv[of region cur items cm] by (simp add: scan_inv_def)
  then show ?thesis by (simp add: reconcile_def Let_def tail_loop_eq)
qed

lemma diffHighlights_diff:
  assumes "nvim_call ''coc#highlight#get_highlights'' (highlight_args bufnr ns region)
             = Resolved (Some cur)"
    and "fst (diffHighlights nvim_call ws bufnr ns items region token) = Inr (Some d)"
  shows "d = reconcile (has ws ''nvim-0.5.1'' \<or> isVim ws) cur (sort_key lnum items) region"
  using assms by (simp add: diffHighlights_def Let_def split: if_splits)

lemma consistent_iff:
  "consistent items cur =
     (\<forall>l. list_all2 same_fields (filter (\<lambda>x. lnum x = l) items) (records_on l cur))"
proof
  assume c: "consistent items cur"
  show "\<forall>l. list_all2 same_fields (filter (\<lambda>x. lnum x = l) items) (records_on l cur)"
  proof
    fix l
    show "list_all2 same_fields (filter (\<lambda>x. lnum x = l) items) (records_on l cur)"
    proof (cases "l \<in> set (map lnum items @ map res_lnum cur)")
      case True
      with c show ?thesis by (simp add: consistent_def list_all_iff)
    next
      case False
      then have "filter (\<lambda>x. lnum x = l) items = []" "records_on l cur = []"
        by (auto simp: records_on_def filter_empty_conv)
      then show ?thesis by simp
    qed
  qed
next
  assume "\<forall>l. list_all2 same_fields (filter (\<lambda>x. lnum x = l) items) (records_on l cur)"
  then show "consistent items cur" by (simp add: consistent_def list_all_iff)
qed

lemma line_change_same:
  assumes "list_all2 same_fields ad ex"
  shows "line_change cm i ex ad = ([], [], [])"
proof -
  have k: "common_prefix_len ad ex = length ad" "common_prefix_len ad ex = length ex"
    using assms common_prefix_len_full[of ad ex] by simp_all
  have "ad = [] \<longleftrightarrow> ex = []" using assms by (auto simp: list_all2_Nil list_all2_Nil2)
  then show ?thesis
    using k by (cases "ad = []") (simp_all add: line_change_def Let_def)
qed

lemma run_at_sorted:
  "sorted (map lnum its) \<Longrightarrow>
   run_at j (length (filter (\<lambda>x. lnum x < j) its)) its = filter (\<lambda>x. lnum x = j) its"
proof (induction its)
  case Nil
  then show ?case by (simp add: run_at_def)
next
  case (Cons x xs)
  then have le: "\<forall>y\<in>set xs. lnum x \<le> lnum y" and s: "sorted (map lnum xs)" by auto
  have ih: "run_at j (length (filter (\<lambda>x. lnum x < j) xs)) xs = filter (\<lambda>x. lnum x = j) xs"
    using Cons.IH s by simp
  show ?case
  proof (cases "lnum x < j")
    case True
    then show ?thesis using ih by (simp add: run_at_def)
  next
    case False
    then have none: "filter (\<lambda>x. lnum x < j) xs = []"
      using le by (auto simp: filter_empty_conv)
    show ?thesis
    proof (cases "lnum x = j")
      case True
      then show ?thesis using ih none by (simp add: run_at_def)
    next
      case ne: False
      then have "filter (\<lambda>x. lnum x = j) xs = []"
        using le False by (auto simp: filter_empty_conv)
      then show ?thesis using False ne none by (simp add: run_at_def)
    qed
  qed
qed

lemma filter_lt_Suc:
  "length (filter (\<lambda>x. lnum x < j) its) + length (filter (\<lambda>x. lnum x = j) its)
     = length (filter (\<lambda>x. lnum x < Suc j) its)"
  by (induction its) auto

lemma scan_lines_consistent:
  assumes srt: "sorted (map lnum its)"
    and lo: "\<forall>r\<in>set cur. scan_start region \<le> res_lnum r"
    and con: "\<forall>l. list_all2 same_fields (filter (\<lambda>x. lnum x = l) its) (records_on l cur)"
  shows "scan_lines cm cur its region
           = \<lparr>linesToRemove = [], markersToRemove = [], newItems = [], itemIndex = length its\<rparr>"
proof -
  let ?start = "scan_start region"
  let ?st0 = "\<lparr>linesToRemove = [], markersToRemove = [], newItems = [], itemIndex = 0\<rparr>"
  let ?P = "\<lambda>j s. s = \<lparr>linesToRemove = [], markersToRemove = [], newItems = [],
                         itemIndex = length (filter (\<lambda>x. lnum x < j) its)\<rparr>"
  have rec_of: "\<exists>r\<in>set cur. res_lnum r = lnum x" if "x \<in> set its" for x
  proof -
    have "filter (\<lambda>y. lnum y = lnum x) its \<noteq> []"
      using that by (auto simp: filter_empty_conv)
    moreover have "list_all2 same_fields (filter (\<lambda>y. lnum y = lnum x) its)
                     (records_on (lnum x) cur)" using con by simp
    ultimately have "records_on (lnum x) cur \<noteq> []" by auto
    then show ?thesis by (auto simp: records_on_def filter_empty_conv)
  qed
  show ?thesis
  proof (cases "cur = []")
    case True
    have "its = []"
    proof (cases its)
      case (Cons x xs)
      then have "x \<in> set its" by simp
      from rec_of[OF this] True show ?thesis by simp
    qed simp
    then show ?thesis using True by (simp add: scan_lines_def group_curr_eq)
  next
    case False
    have ge: "\<forall>x\<in>set its. ?start \<le> lnum x"
    proof
      fix x assume "x \<in> set its"
      from rec_of[OF this] lo show "?start \<le> lnum x" by auto
    qed
    have le: "\<forall>x\<in>set its. lnum x \<le> max_line cur"
    proof
      fix x assume "x \<in> set its"
      from rec_of[OF this] show "lnum x \<le> max_line cur" by (auto dest: max_line_ge)
    qed
    have init: "?P ?start ?st0"
      using ge by (auto simp: filter_empty_conv)
    have step: "?P (Suc j) (loop_body cm (snd (group_curr cur)) its (int (length its) - 1) j s)"
      if "?P j s" for j s
    proof -
      have idx: "itemIndex s = length (filter (\<lambda>x. lnum x < j) its)" using that by simp
      then have i_le: "itemIndex s \<le> length its" by simp
      have ad: "run_at j (itemIndex s) its = filter (\<lambda>x. lnum x = j) its"
        unfolding idx using srt by (rule run_at_sorted)
      have ex: "defaultValue (snd (group_curr cur) j) [] = records_on j cur"
        by (simp add: group_curr_eq)
      have lc: "line_change cm j (records_on j cur) (filter (\<lambda>x. lnum x = j) its) = ([], [], [])"
        using con by (simp add: line_change_same)
      have "loop_body cm (snd (group_curr cur)) its (int (length its) - 1) j s
              = \<lparr>linesToRemove = linesToRemove s @ [],
                 markersToRemove = markersToRemove s @ [],
                 newItems = newItems s @ [],
                 itemIndex = itemIndex s + length (filter (\<lambda>x. lnum x = j) its)\<rparr>"
        using loop_body_eq[OF i_le, of cm "snd (group_curr cur)" j]
        by (simp only: ad ex lc prod.case)
      then show ?thesis
        using that filter_lt_Suc[of j its] by simp
    qed
    have "?P (max ?start (Suc (max_line cur)))
            (diff_loop cm (snd (group_curr cur)) its (int (length its) - 1) (max_line cur)
               ?start ?st0)"
      using init step by (rule diff_loop_invariant[where P = ?P])
    moreover have "scan_lines cm cur its region
            = diff_loop cm (snd (group_curr cur)) its (int (length its) - 1) (max_line cur)
               ?start ?st0"
      using False
      by (simp add: scan_lines_def group_curr_eq scan_start_def split: option.splits)
    moreover have "filter (\<lambda>x. lnum x < max ?start (Suc (max_line cur))) its = its"
      using le by (auto simp: filter_id_conv less_Suc_eq_le max_def)
    ultimately show ?thesis by simp
  qed
qed

lemma lines_change_snoc:
  "lines_change cm cur its (ls @ [j]) =
     (case lines_change cm cur its ls of (a, b, c) \<Rightarrow>
        case line_change cm j (records_on j cur) (items_on j its) of (a', b', c') \<Rightarrow>
          (a @ a', b @ b', c @ c'))"
  by (simp add: lines_change_def split: prod.splits)

lemma scan_lines_sorted:
  assumes srt: "sorted (map lnum its)"
    and ge: "\<forall>x\<in>set its. scan_start region \<le> lnum x"
    and ne: "cur \<noteq> []"
  shows "scan_lines cm cur its region =
     (case lines_change cm cur its [scan_start region..<Suc (max_line cur)] of
        (ls, ms, ns) \<Rightarrow>
          \<lparr>linesToRemove = ls, markersToRemove = ms, newItems = ns,
           itemIndex = length (filter (\<lambda>x. lnum x \<le> max_line cur) its)\<rparr>)"
proof -
  let ?start = "scan_start region"
  let ?st0 = "\<lparr>linesToRemove = [], markersToRemove = [], newItems = [], itemIndex = 0\<rparr>"
  let ?P = "\<lambda>j s. ?start \<le> j \<and>
              s = (case lines_change cm cur its [?start..<j] of
                     (ls, ms, ns) \<Rightarrow>
                       \<lparr>linesToRemove = ls, markersToRemove = ms, newItems = ns,
                        itemIndex = length (filter (\<lambda>x. lnum x < j) its)\<rparr>)"
  have init: "?P ?start ?st0"
    using ge by (auto simp: filter_empty_conv lines_change_def)
  have step: "?P (Suc j) (loop_body cm (snd (group_curr cur)) its (int (length its) - 1) j s)"
    if "?P j s" for j s
  proof -
    obtain a b c where lcs: "lines_change cm cur its [?start..<j] = (a, b, c)"
      by (cases "lines_change cm cur its [?start..<j]") auto
    obtain a' b' c' where lc: "line_change cm j (records_on j cur) (items_on j its) = (a', b', c')"
      by (cases "line_change cm j (records_on j cur) (items_on j its)") auto
    from that have sj: "?start \<le> j"
      and s: "s = \<lparr>linesToRemove = a, markersToRemove = b, newItems = c,
                    itemIndex = length (filter (\<lambda>x. lnum x < j) its)\<rparr>"
      by (simp_all add: lcs)
    have idx: "itemIndex s = length (filter (\<lambda>x. lnum x < j) its)" using s by simp
    then have i_le: "itemIndex s \<le> length its" by simp
    have ad: "run_at j (itemIndex s) its = items_on j its"
      unfolding idx items_on_def using srt by (rule run_at_sorted)
    have ex: "defaultValue (snd (group_curr cur) j) [] = records_on j cur"
      by (simp add: group_curr_eq)
    have "loop_body cm (snd (group_curr cur)) its (int (length its) - 1) j s
            = \<lparr>linesToRemove = linesToRemove s @ a',
               markersToRemove = markersToRemove s @ b',
               newItems = newItems s @ c',
               itemIndex = itemIndex s + length (items_on j its)\<rparr>"
      using loop_body_eq[OF i_le, of cm "snd (group_curr cur)" j]
      by (simp only: ad ex lc prod.case)
    moreover have "[?start..<Suc j] = [?start..<j] @ [j]" using sj by simp
    moreover have "length (filter (\<lambda>x. lnum x < j) its) + length (items_on j its)
                     = length (filter (\<lambda>x. lnum x < Suc j) its)"
      using filter_lt_Suc[of j its] by (simp add: items_on_def)
    ultimately show ?thesis
      using sj s by (simp add: lines_change_snoc lcs lc del: upt_Suc)
  qed
  have fin: "?P (max ?start (Suc (max_line cur)))
          (diff_loop cm (snd (group_curr cur)) its (int (length its) - 1) (max_line cur)
             ?start ?st0)"
    using init step by (rule diff_loop_invariant[where P = ?P])
  have sl: "scan_lines cm cur its region
          = diff_loop cm (snd (group_curr cur)) its (int (length its) - 1) (max_line cur)
             ?start ?st0"
    using ne by (simp add: scan_lines_def group_curr_eq scan_start_def split: option.splits)
  have rng: "[?start..<max ?start (Suc (max_line cur))] = [?start..<Suc (max_line cur)]"
    by (simp add: max_def)
  have cnt: "filter (\<lambda>x. lnum x < max ?start (Suc (max_line cur))) its
               = filter (\<lambda>x. lnum x \<le> max_line cur) its"
  proof (rule filter_cong[OF refl])
    fix x assume "x \<in> set its"
    with ge have "?start \<le> lnum x" by simp
    then show "(lnum x < max ?start (Suc (max_line cur))) = (lnum x \<le> max_line cur)"
      by auto
  qed
  show ?thesis
    using fin unfolding sl rng cnt by simp
qed

lemma drop_sorted_le:
  "sorted (map lnum its) \<Longrightarrow>
   drop (length (filter (\<lambda>x. lnum x \<le> m) its)) its = filter (\<lambda>x. m < lnum x) its"
proof (induction its)
  case Nil
  then show ?case by simp
next
  case (Cons x xs)
  then have le: "\<forall>y\<in>set xs. lnum x \<le> lnum y" and s: "sorted (map lnum xs)" by auto
  show ?case
  proof (cases "lnum x \<le> m")
    case True
    then show ?thesis using Cons.IH s by simp
  next
    case False
    then have "filter (\<lambda>x. lnum x \<le> m) xs = []" "filter (\<lambda>x. m < lnum x) xs = xs"
      using le by (auto simp: filter_empty_conv filter_id_conv)
    then show ?thesis using False by simp
  qed
qed

text \<open>
  The whole diff in closed form, when the snapshot is not empty and no desired item lies
  before the first scanned line: the contributions of the lines from the region's start (or
  0) to the snapshot's highest line, and then the items beyond that line.
\<close>

lemma reconcile_closed_form:
  assumes "cur \<noteq> []" and "\<forall>x\<in>set items. scan_start region \<le> lnum x"
  shows "reconcile cm cur (sort_key lnum items) region =
     (case lines_change cm cur items [scan_start region..<Suc (max_line cur)] of
        (ls, ms, ns) \<Rightarrow>
          \<lparr>remove = ls,
           add = ns @ map convertHighlightItem
                        (filter (\<lambda>x. max_line cur < lnum x) (sort_key lnum items)),
           removeMarkers = ms\<rparr>)"
proof -
  let ?its = "sort_key lnum items"
  have srt: "sorted (map lnum ?its)" by simp
  have ge: "\<forall>x\<in>set ?its. scan_start region \<le> lnum x" using assms(2) by simp
  have on: "items_on i ?its = items_on i items" for i
    by (simp add: items_on_def sort_key_stable)
  have lc: "lines_change cm cur ?its ls = lines_change cm cur items ls" for ls
    by (simp add: lines_change_def on)
  show ?thesis
    unfolding reconcile_eq scan_lines_sorted[OF srt ge assms(1)] lc
    by (simp add: drop_sorted_le[OF srt] split: prod.splits)
qed

lemma reconcile_add_encoded:
  "\<forall>e\<in>set (add (reconcile cm cur items region)). \<exists>x\<in>set items. e = convertHighlightItem x"
proof
  fix e assume e: "e \<in> set (add (reconcile cm cur items region))"
  let ?st = "scan_lines cm cur items region"
  from e consider "e \<in> set (newItems ?st)"
    | "e \<in> set (map convertHighlightItem (drop (itemIndex ?st) items))"
    by (auto simp: reconcile_eq)
  then show "\<exists>x\<in>set items. e = convertHighlightItem x"
  proof cases
    case 1
    then show ?thesis
      using scan_lines_inv[of region cur items cm] unfolding scan_inv_def by blast
  next
    case 2
    then show ?thesis by (auto dest: in_set_dropD)
  qed
qed

lemma on_append:
  "cleared_on cm cur its (xs @ ys) = cleared_on cm cur its xs @ cleared_on cm cur its ys"
  "markers_on cm cur its (xs @ ys) = markers_on cm cur its xs @ markers_on cm cur its ys"
  "entries_on cm cur its (xs @ ys) = entries_on cm cur its xs @ entries_on cm cur its ys"
  by (simp_all add: cleared_on_def markers_on_def entries_on_def lines_change_def)

lemma on_Cons:
  "cleared_on cm cur its (i # ls) =
     fst (line_change cm i (records_on i cur) (items_on i its)) @ cleared_on cm cur its ls"
  "markers_on cm cur its (i # ls) =
     fst (snd (line_change cm i (records_on i cur) (items_on i its))) @ markers_on cm cur its ls"
  "entries_on cm cur its (i # ls) =
     snd (snd (line_change cm i (records_on i cur) (items_on i its))) @ entries_on cm cur its ls"
  by (simp_all add: cleared_on_def markers_on_def entries_on_def lines_change_def)

lemma cleared_on_mem:
  assumes "l \<in> set (cleared_on cm cur its ls)"
  shows "l \<in> set ls"
proof -
  from assms obtain j where j: "j \<in> set ls"
    and l: "l \<in> set (fst (line_change cm j (records_on j cur) (items_on j its)))"
    by (auto simp: cleared_on_def lines_change_def)
  obtain a b c where lc: "line_change cm j (records_on j cur) (items_on j its) = (a, b, c)"
    by (cases "line_change cm j (records_on j cur) (items_on j its)") auto
  from line_change_props(1)[OF lc] l lc have "l = j" by auto
  with j show ?thesis by simp
qed

lemma markers_on_mem:
  assumes "mk \<in> set (markers_on cm cur its ls)"
  shows "\<exists>r\<in>set cur. res_id r = mk \<and> res_lnum r \<in> set ls"
proof -
  from assms obtain j where j: "j \<in> set ls"
    and m: "mk \<in> set (fst (snd (line_change cm j (records_on j cur) (items_on j its))))"
    by (auto simp: markers_on_def lines_change_def)
  obtain a b c where lc: "line_change cm j (records_on j cur) (items_on j its) = (a, b, c)"
    by (cases "line_change cm j (records_on j cur) (items_on j its)") auto
  from line_change_props(2)[OF lc] obtain k where "b = map res_id (drop k (records_on j cur))"
    by blast
  with m lc obtain r where "r \<in> set (drop k (records_on j cur))" "res_id r = mk" by auto
  then have "r \<in> set (records_on j cur)" "res_id r = mk" by (auto dest: in_set_dropD)
  then show ?thesis using j by (auto simp: records_on_def)
qed

lemma entries_on_mem:
  assumes "e \<in> set (entries_on cm cur its ls)"
  shows "\<exists>x\<in>set its. e = convertHighlightItem x \<and> lnum x \<in> set ls"
proof -
  from assms obtain j where j: "j \<in> set ls"
    and m: "e \<in> set (snd (snd (line_change cm j (records_on j cur) (items_on j its))))"
    by (auto simp: entries_on_def lines_change_def)
  obtain a b c where lc: "line_change cm j (records_on j cur) (items_on j its) = (a, b, c)"
    by (cases "line_change cm j (records_on j cur) (items_on j its)") auto
  from line_change_props(3)[OF lc] obtain k where
    "c = map convertHighlightItem (drop k (items_on j its))" by blast
  with m lc obtain x where "x \<in> set (drop k (items_on j its))" "e = convertHighlightItem x"
    by auto
  then have "x \<in> set (items_on j its)" "e = convertHighlightItem x"
    by (auto dest: in_set_dropD)
  then show ?thesis using j by (auto simp: items_on_def)
qed

lemma cleared_on_capable: "cleared_on True cur its ls = []"
  by (auto simp: cleared_on_def lines_change_def line_change_def Let_def)

lemma markers_on_line_only: "markers_on False cur its ls = []"
  by (auto simp: markers_on_def lines_change_def line_change_def Let_def)

lemma beyond_snapshot_mem:
  "e \<in> set (beyond_snapshot cur items) \<Longrightarrow>
   \<exists>x\<in>set items. e = convertHighlightItem x \<and> max_line cur < lnum x"
  by (auto simp: beyond_snapshot_def)

lemma upt_around:
  "a \<le> i \<Longrightarrow> i \<le> m \<Longrightarrow> [a..<Suc m] = [a..<i] @ [i] @ [Suc i..<Suc m]"
proof -
  assume a: "a \<le> i" and m: "i \<le> m"
  have "[a..<i + (Suc m - i)] = [a..<i] @ [i..<i + (Suc m - i)]"
    using a by (rule upt_add_eq_append)
  moreover have "i + (Suc m - i) = Suc m" using m by simp
  ultimately have "[a..<Suc m] = [a..<i] @ [i..<Suc m]" by simp
  moreover have "[i..<Suc m] = i # [Suc i..<Suc m]"
    using m by (simp add: upt_conv_Cons del: upt_Suc)
  ultimately show ?thesis by (simp del: upt_Suc)
qed

text \<open>
  The diff that \<open>diffHighlights\<close> returns, around one scanned line \<open>i\<close>: what the lines
  before \<open>i\<close> contribute, what line \<open>i\<close> contributes, what the lines after \<open>i\<close> contribute,
  and the items beyond the snapshot's last line.
\<close>

lemma diff_around_line:
  assumes resp: "nvim_call ''coc#highlight#get_highlights'' (highlight_args bufnr ns region)
             = Resolved (Some cur)"
    and ret: "fst (diffHighlights nvim_call ws bufnr ns items region token) = Inr (Some d)"
    and pre: "\<forall>x\<in>set items. scan_start region \<le> lnum x"
    and ex: "records_on i cur \<noteq> []" and ad: "items_on i items \<noteq> []"
    and cm: "cm = (has ws ''nvim-0.5.1'' \<or> isVim ws)"
    and lc: "line_change cm i (records_on i cur) (items_on i items) = (a, b, c)"
  shows "remove d = cleared_on cm cur items [scan_start region..<i] @ a
                    @ cleared_on cm cur items [Suc i..<Suc (max_line cur)]"
    and "removeMarkers d = markers_on cm cur items [scan_start region..<i] @ b
                    @ markers_on cm cur items [Suc i..<Suc (max_line cur)]"
    and "add d = entries_on cm cur items [scan_start region..<i] @ c
                    @ entries_on cm cur items [Suc i..<Suc (max_line cur)]
                    @ beyond_snapshot cur items"
    and "i \<notin> set (cleared_on cm cur items [scan_start region..<i]
                   @ cleared_on cm cur items [Suc i..<Suc (max_line cur)])"
    and "\<forall>mk\<in>set (markers_on cm cur items [scan_start region..<i]
                    @ markers_on cm cur items [Suc i..<Suc (max_line cur)]).
           \<exists>r\<in>set cur. res_id r = mk \<and> res_lnum r \<noteq> i"
    and "\<forall>e\<in>set (entries_on cm cur items [scan_start region..<i]
                   @ entries_on cm cur items [Suc i..<Suc (max_line cur)]
                   @ beyond_snapshot cur items).
           \<exists>x\<in>set items. e = convertHighlightItem x \<and> lnum x \<noteq> i"
proof -
  let ?lo = "scan_start region" and ?hi = "max_line cur"
  have ne: "cur \<noteq> []" using ex by (auto simp: records_on_def)
  have lo: "?lo \<le> i"
  proof -
    from ad obtain x where "x \<in> set items" "lnum x = i"
      by (auto simp: items_on_def filter_empty_conv)
    with pre show ?thesis by auto
  qed
  have hi: "i \<le> ?hi"
  proof -
    from ex obtain r where "r \<in> set cur" "res_lnum r = i"
      by (auto simp: records_on_def filter_empty_conv)
    then show ?thesis by (auto dest: max_line_ge)
  qed
  have rng: "[?lo..<Suc ?hi] = [?lo..<i] @ [i] @ [Suc i..<Suc ?hi]"
    using lo hi by (rule upt_around)
  have d: "d = reconcile cm cur (sort_key lnum items) region"
    unfolding cm using resp ret by (rule diffHighlights_diff)
  have cf: "reconcile cm cur (sort_key lnum items) region =
     \<lparr>remove = cleared_on cm cur items [?lo..<Suc ?hi],
      add = entries_on cm cur items [?lo..<Suc ?hi] @ beyond_snapshot cur items,
      removeMarkers = markers_on cm cur items [?lo..<Suc ?hi]\<rparr>"
    unfolding reconcile_closed_form[OF ne pre]
    by (simp add: cleared_on_def markers_on_def entries_on_def beyond_snapshot_def
          split: prod.splits)
  show "remove d = cleared_on cm cur items [?lo..<i] @ a @ cleared_on cm cur items [Suc i..<Suc ?hi]"
    unfolding d cf rng by (simp add: on_append on_Cons lc del: upt_Suc)
  show "removeMarkers d = markers_on cm cur items [?lo..<i] @ b
                    @ markers_on cm cur items [Suc i..<Suc ?hi]"
    unfolding d cf rng by (simp add: on_append on_Cons lc del: upt_Suc)
  show "add d = entries_on cm cur items [?lo..<i] @ c
                    @ entries_on cm cur items [Suc i..<Suc ?hi] @ beyond_snapshot cur items"
    unfolding d cf rng by (simp add: on_append on_Cons lc del: upt_Suc)
  show "i \<notin> set (cleared_on cm cur items [?lo..<i] @ cleared_on cm cur items [Suc i..<Suc ?hi])"
    by (auto dest: cleared_on_mem)
  show "\<forall>mk\<in>set (markers_on cm cur items [?lo..<i] @ markers_on cm cur items [Suc i..<Suc ?hi]).
           \<exists>r\<in>set cur. res_id r = mk \<and> res_lnum r \<noteq> i"
  proof
    fix mk assume "mk \<in> set (markers_on cm cur items [?lo..<i]
                               @ markers_on cm cur items [Suc i..<Suc ?hi])"
    then consider "mk \<in> set (markers_on cm cur items [?lo..<i])"
      | "mk \<in> set (markers_on cm cur items [Suc i..<Suc ?hi])" by auto
    then show "\<exists>r\<in>set cur. res_id r = mk \<and> res_lnum r \<noteq> i"
    proof cases
      case 1
      from markers_on_mem[OF this] show ?thesis by auto
    next
      case 2
      from markers_on_mem[OF this] show ?thesis by auto
    qed
  qed
  show "\<forall>e\<in>set (entries_on cm cur items [?lo..<i] @ entries_on cm cur items [Suc i..<Suc ?hi]
                   @ beyond_snapshot cur items).
           \<exists>x\<in>set items. e = convertHighlightItem x \<and> lnum x \<noteq> i"
  proof
    fix e assume "e \<in> set (entries_on cm cur items [?lo..<i]
                   @ entries_on cm cur items [Suc i..<Suc ?hi] @ beyond_snapshot cur items)"
    then consider "e \<in> set (entries_on cm cur items [?lo..<i])"
      | "e \<in> set (entries_on cm cur items [Suc i..<Suc ?hi])"
      | "e \<in> set (beyond_snapshot cur items)" by auto
    then show "\<exists>x\<in>set items. e = convertHighlightItem x \<and> lnum x \<noteq> i"
    proof cases
      case 1
      from entries_on_mem[OF this] show ?thesis by auto
    next
      case 2
      from entries_on_mem[OF this] show ?thesis by auto
    next
      case 3
      from beyond_snapshot_mem[OF this] hi show ?thesis by auto
    qed
  qed
qed

text \<open>
  Without the precondition the cursor can stay behind: with region \<open>[3, 6)\<close>, an item on
  line 1 keeps the scan from ever reaching the item on line 4, whose record is then removed
  and which is sent again.
\<close>

lemma item_before_region_example:
  "reconcile True [record_at 4 8] [item_at 1, item_at 4] (Some (3, 6))
     = \<lparr>remove = [],
        add = [convertHighlightItem (item_at 1), convertHighlightItem (item_at 4)],
        removeMarkers = [8]\<rparr>
   \<and> reconcile True [record_at 4 8] [item_at 1, item_at 4] None
     = \<lparr>remove = [], add = [convertHighlightItem (item_at 1)], removeMarkers = []\<rparr>"
  by code_simp

section \<open>C1: idempotence\<close>

text \<open>
  C1. Whatever diff was applied before: once the backend's snapshot (taken for the region,
  so with no record before the region's start) is consistent with the desired items, that
  is, on every line its records equal the line's desired items under the 4-field
  comparison, in order, \<open>diffHighlights\<close> with the same desired items returns the diff
  whose \<open>remove\<close>, \<open>removeMarkers\<close> and \<open>add\<close> are all empty, on both kinds of backend.
\<close>

theorem reconcile_idempotent:
  assumes "nvim_call ''coc#highlight#get_highlights'' (highlight_args bufnr ns region)
             = Resolved (Some cur)"
    and "token \<noteq> Some True"
    and "\<forall>r\<in>set cur. scan_start region \<le> res_lnum r"
    and "consistent items cur"
  shows "fst (diffHighlights nvim_call ws bufnr ns items region token)
           = Inr (Some \<lparr>remove = [], add = [], removeMarkers = []\<rparr>)"
proof -
  let ?cm = "has ws ''nvim-0.5.1'' \<or> isVim ws"
  let ?its = "sort_key lnum items"
  have con: "\<forall>l. list_all2 same_fields (filter (\<lambda>x. lnum x = l) ?its) (records_on l cur)"
    using assms(4) by (simp add: consistent_iff sort_key_stable)
  have "scan_lines ?cm cur ?its region
          = \<lparr>linesToRemove = [], markersToRemove = [], newItems = [], itemIndex = length ?its\<rparr>"
    using _ assms(3) con by (rule scan_lines_consistent) simp
  then have "reconcile ?cm cur ?its region = \<lparr>remove = [], add = [], removeMarkers = []\<rparr>"
    by (simp add: reconcile_eq)
  then show ?thesis
    using assms(1,2) by (simp add: diffHighlights_def Let_def)
qed

theorem reconcile_idempotent_witness:
  "consistent [item_at 5, item_at 2, item_at 5] settled
   \<and> fst (diffHighlights settled_highlights nvim_ws 1 ''ns'' [item_at 5, item_at 2, item_at 5]
            (Some (2, 6)) None)
       = Inr (Some \<lparr>remove = [], add = [], removeMarkers = []\<rparr>)
   \<and> fst (diffHighlights settled_highlights old_nvim_ws 1 ''ns'' [item_at 5, item_at 2, item_at 5]
            None (Some False))
       = Inr (Some \<lparr>remove = [], add = [], removeMarkers = []\<rparr>)"
proof -
  have h1: "settled_highlights ''coc#highlight#get_highlights'' (highlight_args 1 ''ns'' region)
              = Resolved (Some settled)" for region
    by (simp add: settled_highlights_def)
  have t1: "(None :: bool option) \<noteq> Some True" and t2: "Some False \<noteq> Some True" by simp_all
  have r1: "\<forall>r\<in>set settled. scan_start (Some (2, 6)) \<le> res_lnum r"
    by (simp add: settled_def record_at_def scan_start_def)
  have r2: "\<forall>r\<in>set settled. scan_start None \<le> res_lnum r"
    by (simp add: scan_start_def)
  have c: "consistent [item_at 5, item_at 2, item_at 5] settled"
    by (simp add: consistent_def settled_def records_on_def record_at_def item_at_def
          same_fields_def)
  show ?thesis
    using reconcile_idempotent
            [where nvim_call = settled_highlights and bufnr = 1 and ns = "''ns''"
               and region = "Some (2, 6)" and cur = settled and token = None
               and items = "[item_at 5, item_at 2, item_at 5]" and ws = nvim_ws,
             OF h1 t1 r1 c]
          reconcile_idempotent
            [where nvim_call = settled_highlights and bufnr = 1 and ns = "''ns''"
               and region = None and cur = settled and token = "Some False"
               and items = "[item_at 5, item_at 2, item_at 5]" and ws = old_nvim_ws,
             OF h1 t2 r2 c]
          c
    by simp
qed

section \<open>C2: the longest common prefix on a marker-capable backend\<close>

text \<open>
  C2. On a marker-capable backend, let line \<open>i\<close> have both existing records and desired
  items, and let no desired item lie before the first scanned line (the region's start; with
  no region this asks nothing). Then in the diff that \<open>diffHighlights\<close> returns no line is
  cleared, the part of \<open>removeMarkers\<close> that comes from line \<open>i\<close> is exactly the markers of
  the records after the longest common prefix, and the part of \<open>add\<close> that comes from line
  \<open>i\<close> is exactly the encodings of the items after it; all other removed markers belong to
  records of other lines and all other added entries to items of other lines. \<open>k\<close>, the
  length of that prefix under the 4-field comparison, is the largest index up to which items
  and records agree pairwise. So existing \<open>[X, Y, Z]\<close> against desired \<open>[X, Y, W]\<close> removes
  only the marker of \<open>Z\<close> and adds only \<open>W\<close>, and a line whose items and records agree
  throughout gets nothing removed or added.
\<close>

theorem marker_capable_longest_prefix:
  assumes "nvim_call ''coc#highlight#get_highlights'' (highlight_args bufnr ns region)
             = Resolved (Some cur)"
    and "fst (diffHighlights nvim_call ws bufnr ns items region token) = Inr (Some d)"
    and "has ws ''nvim-0.5.1'' \<or> isVim ws"
    and "\<forall>x\<in>set items. scan_start region \<le> lnum x"
    and "records_on i cur = existing" and "existing \<noteq> []"
    and "items_on i items = added" and "added \<noteq> []"
    and "k = common_prefix_len added existing"
  shows "remove d = []
         \<and> removeMarkers d
             = markers_on True cur items [scan_start region..<i]
               @ map res_id (drop k existing)
               @ markers_on True cur items [Suc i..<Suc (max_line cur)]
         \<and> add d
             = entries_on True cur items [scan_start region..<i]
               @ map convertHighlightItem (drop k added)
               @ entries_on True cur items [Suc i..<Suc (max_line cur)]
               @ beyond_snapshot cur items
         \<and> (\<forall>mk\<in>set (markers_on True cur items [scan_start region..<i]
                         @ markers_on True cur items [Suc i..<Suc (max_line cur)]).
               \<exists>r\<in>set cur. res_id r = mk \<and> res_lnum r \<noteq> i)
         \<and> (\<forall>e\<in>set (entries_on True cur items [scan_start region..<i]
                        @ entries_on True cur items [Suc i..<Suc (max_line cur)]
                        @ beyond_snapshot cur items).
               \<exists>x\<in>set items. e = convertHighlightItem x \<and> lnum x \<noteq> i)
         \<and> k \<le> length added \<and> k \<le> length existing
         \<and> (\<forall>j<k. same_fields (added ! j) (existing ! j))
         \<and> (k < length added \<and> k < length existing
              \<longrightarrow> \<not> same_fields (added ! k) (existing ! k))
         \<and> (\<forall>x y w rx ry rz.
               added = [x, y, w] \<and> existing = [rx, ry, rz] \<and> same_fields x rx
               \<and> same_fields y ry \<and> \<not> same_fields w rz
               \<longrightarrow> map res_id (drop k existing) = [res_id rz]
                   \<and> map convertHighlightItem (drop k added) = [convertHighlightItem w])
         \<and> (k = length added \<and> k = length existing
              \<longrightarrow> map res_id (drop k existing) = []
                  \<and> map convertHighlightItem (drop k added) = [])"
proof -
  have cm: "True = (has ws ''nvim-0.5.1'' \<or> isVim ws)" using assms(3) by simp
  have ex: "records_on i cur \<noteq> []" and ad: "items_on i items \<noteq> []"
    using assms(5-8) by simp_all
  have lc: "line_change True i (records_on i cur) (items_on i items)
          = ([], map res_id (drop k existing), map convertHighlightItem (drop k added))"
    using assms(5-9) by (simp add: line_change_def Let_def)
  note around = diff_around_line[OF assms(1,2,4) ex ad cm lc]
  have "remove d = []"
    using around(1) by (simp add: cleared_on_capable)
  moreover have "k \<le> length added \<and> k \<le> length existing"
    using assms(9) common_prefix_len_le by simp
  moreover have "\<forall>j<k. same_fields (added ! j) (existing ! j)"
    using assms(9) common_prefix_len_same by simp
  moreover have "k < length added \<and> k < length existing
              \<longrightarrow> \<not> same_fields (added ! k) (existing ! k)"
    using assms(9) common_prefix_len_stop by simp
  moreover have "\<forall>x y w rx ry rz.
               added = [x, y, w] \<and> existing = [rx, ry, rz] \<and> same_fields x rx
               \<and> same_fields y ry \<and> \<not> same_fields w rz
               \<longrightarrow> map res_id (drop k existing) = [res_id rz]
                   \<and> map convertHighlightItem (drop k added) = [convertHighlightItem w]"
    using assms(9) by auto
  ultimately show ?thesis
    using around(2,3,5,6) by simp
qed

theorem marker_capable_longest_prefix_witness:
  "fst (diffHighlights prefix_highlights nvim_ws 1 ''ns'' prefix_items None None)
     = Inr (Some \<lparr>remove = [],
                  add = [convertHighlightItem (item_of ''W'' 2 6),
                         convertHighlightItem (item_of ''U'' 5 0)],
                  removeMarkers = [10, 13]\<rparr>)
   \<and> [10, 13] = markers_on True prefix_snapshot prefix_items [0..<2] @ [13]
                 @ markers_on True prefix_snapshot prefix_items [3..<3]
   \<and> [convertHighlightItem (item_of ''W'' 2 6), convertHighlightItem (item_of ''U'' 5 0)]
       = entries_on True prefix_snapshot prefix_items [0..<2]
         @ [convertHighlightItem (item_of ''W'' 2 6)]
         @ entries_on True prefix_snapshot prefix_items [3..<3]
         @ beyond_snapshot prefix_snapshot prefix_items"
proof -
  let ?ex = "[record_of ''X'' 2 0 11, record_of ''Y'' 2 3 12, record_of ''Z'' 2 6 13]"
  let ?ad = "[item_of ''X'' 2 0, item_of ''Y'' 2 3, item_of ''W'' 2 6]"
  let ?d = "\<lparr>remove = [],
             add = [convertHighlightItem (item_of ''W'' 2 6),
                    convertHighlightItem (item_of ''U'' 5 0)],
             removeMarkers = [10, 13]\<rparr>"
  have h1: "prefix_highlights ''coc#highlight#get_highlights'' (highlight_args 1 ''ns'' None)
              = Resolved (Some prefix_snapshot)"
    by (simp add: prefix_highlights_def)
  have h2: "fst (diffHighlights prefix_highlights nvim_ws 1 ''ns'' prefix_items None None)
              = Inr (Some ?d)"
    by code_simp
  have h3: "has nvim_ws ''nvim-0.5.1'' \<or> isVim nvim_ws" by (simp add: nvim_ws_def)
  have h4: "\<forall>x\<in>set prefix_items. scan_start None \<le> lnum x" by (simp add: scan_start_def)
  have h5: "records_on 2 prefix_snapshot = ?ex"
    by (simp add: records_on_def prefix_snapshot_def record_of_def)
  have h6: "?ex \<noteq> []" by simp
  have h7: "items_on 2 prefix_items = ?ad"
    by (simp add: items_on_def prefix_items_def item_of_def)
  have h8: "?ad \<noteq> []" by simp
  have h9: "2 = common_prefix_len ?ad ?ex"
    by (simp add: same_fields_def item_of_def record_of_def)
  have ml: "max_line prefix_snapshot = 2"
    by (simp add: max_line_def prefix_snapshot_def record_of_def)
  show ?thesis
    using marker_capable_longest_prefix
            [where nvim_call = prefix_highlights and ws = nvim_ws and bufnr = 1
               and ns = "''ns''" and items = prefix_items and region = None and token = None
               and cur = prefix_snapshot and d = ?d and i = 2 and existing = ?ex
               and added = ?ad and k = 2,
             OF h1 h2 h3 h4 h5 h6 h7 h8 h9]
          h2
    by (simp add: ml scan_start_def record_of_def numeral_3_eq_3 del: upt_Suc)
qed

section \<open>C3: a line on a backend without markers\<close>

text \<open>
  C3. On a backend that is not marker-capable, let line \<open>i\<close> have both existing records
  and desired items, and let no desired item lie before the first scanned line. Then in the
  diff that \<open>diffHighlights\<close> returns no marker is removed, and: if the line's items and
  records have the same length and agree under the 4-field comparison at every position,
  line \<open>i\<close> is not cleared and none of its items is added; otherwise line \<open>i\<close> is cleared
  once and the encodings of all its items, not only of a suffix, are added. All other added
  entries belong to items of other lines. So existing \<open>[X, Y]\<close> against desired
  \<open>[X, Y, W]\<close> clears the line and adds all three again.
\<close>

theorem line_granular_clear_and_readd:
  assumes "nvim_call ''coc#highlight#get_highlights'' (highlight_args bufnr ns region)
             = Resolved (Some cur)"
    and "fst (diffHighlights nvim_call ws bufnr ns items region token) = Inr (Some d)"
    and "\<not> (has ws ''nvim-0.5.1'' \<or> isVim ws)"
    and "\<forall>x\<in>set items. scan_start region \<le> lnum x"
    and "records_on i cur = existing" and "existing \<noteq> []"
    and "items_on i items = added" and "added \<noteq> []"
  shows "removeMarkers d = []
         \<and> remove d
             = cleared_on False cur items [scan_start region..<i]
               @ (if list_all2 same_fields added existing then [] else [i])
               @ cleared_on False cur items [Suc i..<Suc (max_line cur)]
         \<and> add d
             = entries_on False cur items [scan_start region..<i]
               @ (if list_all2 same_fields added existing then []
                  else map convertHighlightItem added)
               @ entries_on False cur items [Suc i..<Suc (max_line cur)]
               @ beyond_snapshot cur items
         \<and> i \<notin> set (cleared_on False cur items [scan_start region..<i]
                       @ cleared_on False cur items [Suc i..<Suc (max_line cur)])
         \<and> (\<forall>e\<in>set (entries_on False cur items [scan_start region..<i]
                        @ entries_on False cur items [Suc i..<Suc (max_line cur)]
                        @ beyond_snapshot cur items).
               \<exists>x\<in>set items. e = convertHighlightItem x \<and> lnum x \<noteq> i)
         \<and> (\<forall>x y w rx ry. added = [x, y, w] \<and> existing = [rx, ry]
               \<longrightarrow> \<not> list_all2 same_fields added existing)"
proof -
  have cm: "False = (has ws ''nvim-0.5.1'' \<or> isVim ws)" using assms(3) by simp
  have ex: "records_on i cur \<noteq> []" and ad: "items_on i items \<noteq> []"
    using assms(5-8) by simp_all
  have lc: "line_change False i (records_on i cur) (items_on i items)
          = ((if list_all2 same_fields added existing then [] else [i]), [],
             (if list_all2 same_fields added existing then []
              else map convertHighlightItem added))"
    using assms(5-8) common_prefix_len_full[of added existing]
    by (simp add: line_change_def Let_def)
  note around = diff_around_line[OF assms(1,2,4) ex ad cm lc]
  have "removeMarkers d = []"
    using around(2) by (simp add: markers_on_line_only)
  then show ?thesis
    using around(1,3,4,6) by auto
qed

theorem line_granular_clear_and_readd_witness:
  "fst (diffHighlights longer_highlights old_nvim_ws 1 ''ns'' longer_items None None)
     = Inr (Some \<lparr>remove = [0, 4],
                  add = [convertHighlightItem (item_of ''X'' 4 0),
                         convertHighlightItem (item_of ''Y'' 4 3),
                         convertHighlightItem (item_of ''W'' 4 6),
                         convertHighlightItem (item_of ''U'' 5 0)],
                  removeMarkers = []\<rparr>)
   \<and> [0, 4] = cleared_on False longer_snapshot longer_items [0..<4] @ [4]
               @ cleared_on False longer_snapshot longer_items [5..<5]
   \<and> 4 \<notin> set (cleared_on False longer_snapshot longer_items [0..<4]
                 @ cleared_on False longer_snapshot longer_items [5..<5])"
proof -
  let ?ex = "[record_of ''X'' 4 0 11, record_of ''Y'' 4 3 12]"
  let ?ad = "[item_of ''X'' 4 0, item_of ''Y'' 4 3, item_of ''W'' 4 6]"
  let ?d = "\<lparr>remove = [0, 4],
             add = [convertHighlightItem (item_of ''X'' 4 0),
                    convertHighlightItem (item_of ''Y'' 4 3),
                    convertHighlightItem (item_of ''W'' 4 6),
                    convertHighlightItem (item_of ''U'' 5 0)],
             removeMarkers = []\<rparr>"
  have h1: "longer_highlights ''coc#highlight#get_highlights'' (highlight_args 1 ''ns'' None)
              = Resolved (Some longer_snapshot)"
    by (simp add: longer_highlights_def)
  have h2: "fst (diffHighlights longer_highlights old_nvim_ws 1 ''ns'' longer_items None None)
              = Inr (Some ?d)"
    by code_simp
  have h3: "\<not> (has old_nvim_ws ''nvim-0.5.1'' \<or> isVim old_nvim_ws)"
    by (simp add: old_nvim_ws_def)
  have h4: "\<forall>x\<in>set longer_items. scan_start None \<le> lnum x" by (simp add: scan_start_def)
  have h5: "records_on 4 longer_snapshot = ?ex"
    by (simp add: records_on_def longer_snapshot_def record_of_def)
  have h6: "?ex \<noteq> []" by simp
  have h7: "items_on 4 longer_items = ?ad"
    by (simp add: items_on_def longer_items_def item_of_def)
  have h8: "?ad \<noteq> []" by simp
  have ml: "max_line longer_snapshot = 4"
    by (simp add: max_line_def longer_snapshot_def record_of_def)
  show ?thesis
    using line_granular_clear_and_readd
            [where nvim_call = longer_highlights and ws = old_nvim_ws and bufnr = 1
               and ns = "''ns''" and items = longer_items and region = None and token = None
               and cur = longer_snapshot and d = ?d and i = 4 and existing = ?ex
               and added = ?ad,
             OF h1 h2 h3 h4 h5 h6 h7 h8]
          h2
    by (simp add: ml scan_start_def del: upt_Suc)
qed

section \<open>C4: the commands of \<open>applyDiffHighlights\<close>\<close>

text \<open>
  C4. For every diff, \<open>applyDiffHighlights\<close> issues nothing at all when the three lists
  are empty; otherwise it opens one batch, queues delete-markers (if \<open>removeMarkers\<close> is
  non-empty), then clear-lines (if \<open>remove\<close> is non-empty), then set-entries (if \<open>add\<close>
  is non-empty), and closes the batch.
\<close>

theorem applyDiffHighlights_commands:
  "snd (applyDiffHighlights bufnr ns priority diff notify ack) =
     (if remove diff = [] \<and> add diff = [] \<and> removeMarkers diff = [] then []
      else [PauseNotification] @ apply_calls bufnr ns priority diff
           @ [ResumeNotification True notify])"
  by (cases ack) (simp_all add: applyDiffHighlights_def apply_calls_def Let_def)

theorem applyDiffHighlights_commands_witness:
  "snd (applyDiffHighlights 1 ''ns'' 10 full_diff False (Resolved ())) =
     [PauseNotification,
      CallNotify ''coc#highlight#del_markers'' [JNum 1, JStr ''ns'', JArr [JNum 7, JNum 8]],
      CallNotify ''coc#highlight#clear'' [JNum 1, JStr ''ns'', JArr [JNum 3]],
      CallNotify ''coc#highlight#set''
        [JNum 1, JStr ''ns'',
         JArr [JArr [JStr ''Search'', JNum 3, JNum 0, JNum 4, JNum 1, JNum 0, JNum 0]], JNum 10],
      ResumeNotification True False]
   \<and> snd (applyDiffHighlights 1 ''ns'' 10 empty_diff False (Resolved ())) = []"
  using applyDiffHighlights_commands [of 1 "''ns''" 10 full_diff False "Resolved ()"]
    applyDiffHighlights_commands [of 1 "''ns''" 10 empty_diff False "Resolved ()"]
  by (simp add: apply_calls_def full_diff_def empty_diff_def num_array_def
        convertHighlightItem_def bool_num_def item_at_def)

section \<open>C5: the region\<close>

text \<open>
  C5. For a reconciliation with region \<open>[a, b)\<close> over a snapshot whose records all lie on
  lines of \<open>[a, b)\<close>: every line to clear lies in \<open>[a, b)\<close>; every marker to remove is the
  marker of a snapshot record on a line of \<open>[a, b)\<close>; the items that the scan over the
  lines consumed (those before the final cursor, in sorted order) all lie on lines of
  \<open>[a, b)\<close>, as do the items whose encodings the scan added; and the remaining items, among
  them every item outside \<open>[a, b)\<close>, are appended after the scan, from the cursor on.
\<close>

theorem region_containment:
  assumes "nvim_call ''coc#highlight#get_highlights'' (highlight_args bufnr ns (Some (a, b)))
             = Resolved (Some cur)"
    and "\<forall>r\<in>set cur. a \<le> res_lnum r \<and> res_lnum r < b"
    and "fst (diffHighlights nvim_call ws bufnr ns items (Some (a, b)) token) = Inr (Some d)"
    and "st = scan_lines (has ws ''nvim-0.5.1'' \<or> isVim ws) cur (sort_key lnum items)
                (Some (a, b))"
  shows "(\<forall>l\<in>set (remove d). a \<le> l \<and> l < b)
         \<and> (\<forall>mk\<in>set (removeMarkers d).
               \<exists>r\<in>set cur. res_id r = mk \<and> a \<le> res_lnum r \<and> res_lnum r < b)
         \<and> itemIndex st \<le> length items
         \<and> (\<forall>k<itemIndex st. a \<le> lnum (sort_key lnum items ! k)
                               \<and> lnum (sort_key lnum items ! k) < b)
         \<and> (\<forall>e\<in>set (newItems st).
               \<exists>x\<in>set items. e = convertHighlightItem x \<and> a \<le> lnum x \<and> lnum x < b)
         \<and> add d = newItems st
                     @ map convertHighlightItem (drop (itemIndex st) (sort_key lnum items))"
proof -
  let ?cm = "has ws ''nvim-0.5.1'' \<or> isVim ws"
  let ?items = "sort_key lnum items"
  let ?top = "max a (Suc (max_line cur))"
  have d: "d = reconcile ?cm cur ?items (Some (a, b))"
    using assms(1,3) by (rule diffHighlights_diff)
  have inv: "scan_inv a cur ?items ?top st"
    using scan_lines_inv[of "Some (a, b)" cur ?items ?cm] assms(4)
    by (simp add: scan_start_def)
  have st: "st = scan_lines ?cm cur ?items (Some (a, b))" by (rule assms(4))
  have dst: "remove d = linesToRemove st" "removeMarkers d = markersToRemove st"
    "add d = newItems st @ map convertHighlightItem (drop (itemIndex st) ?items)"
    unfolding d st reconcile_eq by simp_all
  have len: "itemIndex st \<le> length items"
    using inv by (simp add: scan_inv_def)
  show ?thesis
  proof (cases "cur = []")
    case True
    then have "st = \<lparr>linesToRemove = [], markersToRemove = [], newItems = [], itemIndex = 0\<rparr>"
      unfolding st by (simp add: scan_lines_def group_curr_eq)
    then show ?thesis using dst by simp
  next
    case False
    then have mx: "max_line cur < b" using assms(2) by (auto intro: max_line_lt)
    have bound: "l < b" if "a \<le> l" and "l < ?top" for l
      using that mx by auto
    have p1: "\<forall>l\<in>set (linesToRemove st). a \<le> l \<and> l < b"
      using inv bound by (auto simp: scan_inv_def)
    have p2: "\<forall>mk\<in>set (markersToRemove st).
               \<exists>r\<in>set cur. res_id r = mk \<and> a \<le> res_lnum r \<and> res_lnum r < b"
      using inv assms(2) unfolding scan_inv_def by blast
    have p3: "\<forall>k<itemIndex st. a \<le> lnum (?items ! k) \<and> lnum (?items ! k) < b"
      using inv bound by (auto simp: scan_inv_def)
    have p4: "\<forall>e\<in>set (newItems st).
               \<exists>x\<in>set items. e = convertHighlightItem x \<and> a \<le> lnum x \<and> lnum x < b"
    proof
      fix e assume "e \<in> set (newItems st)"
      with inv obtain x where "x \<in> set ?items" "e = convertHighlightItem x" "a \<le> lnum x"
        "lnum x < ?top" unfolding scan_inv_def by blast
      then show "\<exists>x\<in>set items. e = convertHighlightItem x \<and> a \<le> lnum x \<and> lnum x < b"
        using bound by auto
    qed
    show ?thesis using p1 p2 p3 p4 len dst by simp
  qed
qed

theorem region_containment_witness:
  "fst (diffHighlights region_highlights nvim_ws 1 ''ns'' [item_at 9, item_at 4, item_at 1]
          (Some (3, 6)) None)
     = Inr (Some \<lparr>remove = [],
                  add = [convertHighlightItem (item_at 1), convertHighlightItem (item_at 4),
                         convertHighlightItem (item_at 9)],
                  removeMarkers = [7, 8]\<rparr>)
   \<and> itemIndex (scan_lines True in_region [item_at 1, item_at 4, item_at 9] (Some (3, 6))) = 0
   \<and> fst (diffHighlights region_highlights nvim_ws 1 ''ns'' [item_at 9, item_at 4]
          (Some (3, 6)) None)
     = Inr (Some \<lparr>remove = [], add = [convertHighlightItem (item_at 9)], removeMarkers = [7]\<rparr>)
   \<and> itemIndex (scan_lines True in_region [item_at 4, item_at 9] (Some (3, 6))) = 1"
proof -
  have h1: "region_highlights ''coc#highlight#get_highlights'' (highlight_args 1 ''ns'' (Some (3, 6)))
              = Resolved (Some in_region)"
    by (simp add: region_highlights_def)
  have h2: "\<forall>r\<in>set in_region. 3 \<le> res_lnum r \<and> res_lnum r < 6"
    by (simp add: in_region_def record_at_def)
  have h3: "fst (diffHighlights region_highlights nvim_ws 1 ''ns'' [item_at 9, item_at 4, item_at 1]
          (Some (3, 6)) None)
     = Inr (Some \<lparr>remove = [],
                  add = [convertHighlightItem (item_at 1), convertHighlightItem (item_at 4),
                         convertHighlightItem (item_at 9)],
                  removeMarkers = [7, 8]\<rparr>)"
    by code_simp
  have h3': "fst (diffHighlights region_highlights nvim_ws 1 ''ns'' [item_at 9, item_at 4]
          (Some (3, 6)) None)
     = Inr (Some \<lparr>remove = [], add = [convertHighlightItem (item_at 9)], removeMarkers = [7]\<rparr>)"
    by code_simp
  have h4: "scan_lines True in_region [item_at 1, item_at 4, item_at 9] (Some (3, 6))
     = scan_lines (has nvim_ws ''nvim-0.5.1'' \<or> isVim nvim_ws) in_region
         (sort_key lnum [item_at 9, item_at 4, item_at 1]) (Some (3, 6))"
    by (simp add: nvim_ws_def item_at_def)
  have h4': "scan_lines True in_region [item_at 4, item_at 9] (Some (3, 6))
     = scan_lines (has nvim_ws ''nvim-0.5.1'' \<or> isVim nvim_ws) in_region
         (sort_key lnum [item_at 9, item_at 4]) (Some (3, 6))"
    by (simp add: nvim_ws_def item_at_def)
  have i1: "itemIndex (scan_lines True in_region [item_at 1, item_at 4, item_at 9] (Some (3, 6))) = 0"
    by code_simp
  have i2: "itemIndex (scan_lines True in_region [item_at 4, item_at 9] (Some (3, 6))) = 1"
    by code_simp
  show ?thesis
    using region_containment [OF h1 h2 h3 h4] region_containment [OF h1 h2 h3' h4'] h3 h3' i1 i2
    by simp
qed

section \<open>C6: what the call does to the caller's array\<close>

text \<open>
  C6 as stated fails: the caller's array \<open>[item on line 1, item on line 0]\<close> is
  \<open>[item on line 0, item on line 1]\<close> after the call.
\<close>

theorem diffHighlights_sorts_in_place_counterexample:
  "snd (diffHighlights no_highlights nvim_ws 1 ''ns'' [item_at 1, item_at 0] None None)
     = [item_at 0, item_at 1]
   \<and> snd (diffHighlights no_highlights nvim_ws 1 ''ns'' [item_at 1, item_at 0] None None)
     \<noteq> [item_at 1, item_at 0]"
  by (simp add: diffHighlights_def no_highlights_def item_at_def Let_def)

text \<open>
  C6, amended. \<open>diffHighlights\<close> sorts the caller's array itself. When it returns a diff,
  the array afterwards holds the same items, in ascending order of line, the items of each
  line in their former relative order; it is as before the call exactly when it was already
  in ascending order of line. When the call returns null or fails, the array is as before.
\<close>

theorem diffHighlights_items_after_call:
  "(case diffHighlights nvim_call ws bufnr ns items region token of
      (Inr (Some d), items') \<Rightarrow>
         mset items' = mset items
         \<and> sorted (map lnum items')
         \<and> (\<forall>l. filter (\<lambda>x. lnum x = l) items' = filter (\<lambda>x. lnum x = l) items)
         \<and> (items' = items) = sorted (map lnum items)
    | (other, items') \<Rightarrow> items' = items)"
proof -
  have "(sort_key lnum items = items) = sorted (map lnum items)"
  proof
    assume "sort_key lnum items = items"
    then have "map lnum items = map lnum (sort_key lnum items)" by simp
    then show "sorted (map lnum items)" by (simp only: sorted_sort_key)
  next
    assume "sorted (map lnum items)"
    then show "sort_key lnum items = items" by (rule sort_key_id_if_sorted)
  qed
  then show ?thesis
    by (simp add: diffHighlights_def Let_def sort_key_stable
             split: reply.splits option.splits)
qed

theorem diffHighlights_items_after_call_witness:
  "snd (diffHighlights no_highlights nvim_ws 1 ''ns'' [item_at 2, item_at 5, item_at 2] None None)
     = [item_at 2, item_at 2, item_at 5]
   \<and> snd (diffHighlights no_highlights nvim_ws 1 ''ns'' [item_at 2, item_at 5] None (Some True))
     = [item_at 2, item_at 5]"
  using diffHighlights_items_after_call
          [where nvim_call = no_highlights and ws = nvim_ws and bufnr = 1 and ns = "''ns''"
             and items = "[item_at 2, item_at 5, item_at 2]" and region = None and token = None]
        diffHighlights_items_after_call
          [where nvim_call = no_highlights and ws = nvim_ws and bufnr = 1 and ns = "''ns''"
             and items = "[item_at 2, item_at 5]" and region = None and token = "Some True"]
  by (simp add: diffHighlights_def no_highlights_def item_at_def Let_def)

section \<open>C7: the cancellation token of \<open>diffHighlights\<close>\<close>

text \<open>
  C7 as stated fails: with the same snapshot and items, a token whose cancellation is
  requested makes \<open>diffHighlights\<close> return null, where it returns a diff with no token.
\<close>

theorem diffHighlights_token_counterexample:
  "fst (diffHighlights no_highlights nvim_ws 1 ''ns'' [item_at 0] None (Some True)) = Inr None
   \<and> fst (diffHighlights no_highlights nvim_ws 1 ''ns'' [item_at 0] None None)
       = Inr (Some \<lparr>remove = [], add = [convertHighlightItem (item_at 0)], removeMarkers = []\<rparr>)"
  by (simp add: diffHighlights_def no_highlights_def Let_def reconcile_def scan_lines_def
        group_curr_def tail_loop.simps)

text \<open>
  C7, amended. \<open>diffHighlights\<close> takes an optional cancellation token and reads it once,
  after the backend has answered: given a snapshot, it returns null without touching the
  items when cancellation is requested, and otherwise runs to completion and returns a
  diff. \<open>applyDiffHighlights\<close> takes no token: for a diff that is not all-empty it always
  opens the batch and closes it.
\<close>

theorem diffHighlights_token_checked_once:
  "(nvim_call ''coc#highlight#get_highlights'' (highlight_args bufnr ns region)
       = Resolved (Some cur) \<longrightarrow>
      (token = Some True \<longrightarrow>
         diffHighlights nvim_call ws bufnr ns items region token = (Inr None, items))
      \<and> (token \<noteq> Some True \<longrightarrow>
         fst (diffHighlights nvim_call ws bufnr ns items region token)
           = Inr (Some (reconcile (has ws ''nvim-0.5.1'' \<or> isVim ws) cur
                          (sort_key lnum items) region))))
   \<and> (\<not> (remove diff = [] \<and> add diff = [] \<and> removeMarkers diff = []) \<longrightarrow>
        hd (snd (applyDiffHighlights bufnr ns priority diff notify ack)) = PauseNotification
        \<and> last (snd (applyDiffHighlights bufnr ns priority diff notify ack))
            = ResumeNotification True notify)"
  by (cases ack) (simp_all add: diffHighlights_def applyDiffHighlights_def Let_def)

theorem diffHighlights_token_checked_once_witness:
  "diffHighlights no_highlights nvim_ws 1 ''ns'' [item_at 0] None (Some True)
     = (Inr None, [item_at 0])
   \<and> fst (diffHighlights no_highlights nvim_ws 1 ''ns'' [item_at 0] None (Some False))
     = Inr (Some \<lparr>remove = [], add = [convertHighlightItem (item_at 0)], removeMarkers = []\<rparr>)
   \<and> last (snd (applyDiffHighlights 1 ''ns'' 10 full_diff True Rejected))
     = ResumeNotification True True"
  using diffHighlights_token_checked_once
          [where nvim_call = no_highlights and ws = nvim_ws and bufnr = 1 and ns = "''ns''"
             and items = "[item_at 0]" and region = None and token = "Some True"
             and cur = "[]" and diff = full_diff and priority = 10 and notify = True
             and ack = Rejected]
        diffHighlights_token_checked_once
          [where nvim_call = no_highlights and ws = nvim_ws and bufnr = 1 and ns = "''ns''"
             and items = "[item_at 0]" and region = None and token = "Some False"
             and cur = "[]" and diff = full_diff and priority = 10 and notify = True
             and ack = Rejected]
  by (simp add: no_highlights_def full_diff_def reconcile_def scan_lines_def
        group_curr_def tail_loop.simps)

section \<open>C8: the wire encoding\<close>

text \<open>
  C8. The encoded record of a desired item has exactly seven positions, holding in this
  order the group, the line, the start column, the end column and the three flags
  \<open>combine\<close>, \<open>start_incl\<close>, \<open>end_incl\<close>, each flag as the number 1 when true and 0
  when false; every entry of the \<open>add\<close> list of a diff that \<open>diffHighlights\<close> returns,
  which is what the set-entries command carries, is this encoding of a desired item.
\<close>

theorem convertHighlightItem_wire:
  "length (convertHighlightItem item) = 7
   \<and> convertHighlightItem item ! 0 = JStr (hlGroup item)
   \<and> convertHighlightItem item ! 1 = JNum (int (lnum item))
   \<and> convertHighlightItem item ! 2 = JNum (int (colStart item))
   \<and> convertHighlightItem item ! 3 = JNum (int (colEnd item))
   \<and> convertHighlightItem item ! 4 = JNum (if combine item then 1 else 0)
   \<and> convertHighlightItem item ! 5 = JNum (if start_incl item then 1 else 0)
   \<and> convertHighlightItem item ! 6 = JNum (if end_incl item then 1 else 0)
   \<and> (fst (diffHighlights nvim_call ws bufnr ns items region token) = Inr (Some d)
        \<longrightarrow> (\<forall>e\<in>set (add d). \<exists>x\<in>set items. e = convertHighlightItem x))"
proof -
  have "\<forall>e\<in>set (add d). \<exists>x\<in>set items. e = convertHighlightItem x"
    if "fst (diffHighlights nvim_call ws bufnr ns items region token) = Inr (Some d)"
  proof -
    from that obtain cur where
      "d = reconcile (has ws ''nvim-0.5.1'' \<or> isVim ws) cur (sort_key lnum items) region"
      by (auto simp: diffHighlights_def Let_def split: reply.splits option.splits if_splits)
    then show ?thesis
      using reconcile_add_encoded[of "has ws ''nvim-0.5.1'' \<or> isVim ws" cur
              "sort_key lnum items" region]
      by simp
  qed
  then show ?thesis
    by (simp add: convertHighlightItem_def bool_num_def)
qed

theorem convertHighlightItem_wire_witness:
  "length (convertHighlightItem (item_at 3)) = 7
   \<and> convertHighlightItem (item_at 3) ! 0 = JStr ''Search''
   \<and> convertHighlightItem (item_at 3) ! 1 = JNum 3
   \<and> convertHighlightItem (item_at 3) ! 2 = JNum 0
   \<and> convertHighlightItem (item_at 3) ! 3 = JNum 4
   \<and> convertHighlightItem (item_at 3) ! 4 = JNum 1
   \<and> convertHighlightItem (item_at 3) ! 5 = JNum 0
   \<and> convertHighlightItem (item_at 3) ! 6 = JNum 0
   \<and> fst (diffHighlights no_highlights nvim_ws 1 ''ns'' [item_at 3] None None)
       = Inr (Some \<lparr>remove = [],
                    add = [[JStr ''Search'', JNum 3, JNum 0, JNum 4, JNum 1, JNum 0, JNum 0]],
                    removeMarkers = []\<rparr>)"
proof -
  have "fst (diffHighlights no_highlights nvim_ws 1 ''ns'' [item_at 3] None None)
       = Inr (Some \<lparr>remove = [],
                    add = [[JStr ''Search'', JNum 3, JNum 0, JNum 4, JNum 1, JNum 0, JNum 0]],
                    removeMarkers = []\<rparr>)"
    by code_simp
  then show ?thesis
    using convertHighlightItem_wire
            [where item = "item_at 3" and nvim_call = no_highlights and ws = nvim_ws
               and bufnr = 1 and ns = "''ns''" and items = "[item_at 3]" and region = None
               and token = None
               and d = "\<lparr>remove = [],
                    add = [[JStr ''Search'', JNum 3, JNum 0, JNum 4, JNum 1, JNum 0, JNum 0]],
                    removeMarkers = []\<rparr>"]
    by (simp add: item_at_def)
qed

section \<open>C9: the pickers and the token\<close>

text \<open>
  C9 as stated fails: called with a token that is already cancelled, each of the three
  pickers still takes the gate before it looks at the token.
\<close>

theorem pickers_acquire_before_check_counterexample:
  "snd (showMenuPicker (Some True) (Closed 0) []) = [Acquire, Release]
   \<and> snd (showPickerDialog [''a'', ''b''] (Some True) (Closed (Some [0])) []) = [Acquire, Release]
   \<and> snd (showQuickPick empty_or_not_array (ItemArray [Text ''a'']) False (Some True)
            (Closed None) [])
       = [Acquire, Release]"
  by (simp add: showMenuPicker_def showPickerDialog_def showQuickPick_def mutex_use_def
        empty_or_not_array_def await_items_def)

text \<open>
  C9, amended. For every call to \<open>showQuickPick\<close>, \<open>showMenuPicker\<close> or
  \<open>showPickerDialog\<close> with a cancellation token, the token is not checked before enqueuing
  on the gate: a call whose token is already cancelled still acquires the gate. The token is
  checked immediately after the gate is acquired and before any observable work: when it is
  cancelled at that point, the call presents no modal surface, resolves with the canceled
  value (undefined for \<open>showQuickPick\<close> and \<open>showPickerDialog\<close>, \<open>-1\<close> for
  \<open>showMenuPicker\<close>) and releases the gate. For \<open>showQuickPick\<close> this holds of the calls
  that get as far as the gate: a call whose items argument is falsy or empty resolves
  undefined, and a call whose items promise rejects fails, before the gate and whatever the
  token. The theorem gives the events of every call, whatever its token.
\<close>

theorem pickers_check_after_acquire:
  "snd (showMenuPicker token menu_outcome tr)
     = tr @ [Acquire] @ (if token = Some True then [] else [Present MenuSurface]) @ [Release]
   \<and> (token = Some True \<longrightarrow> fst (showMenuPicker token menu_outcome tr) = Inr (- 1))
   \<and> snd (showPickerDialog xs token picker_outcome tr)
     = tr @ [Acquire] @ (if token = Some True then [] else [Present PickerSurface]) @ [Release]
   \<and> (token = Some True \<longrightarrow> fst (showPickerDialog xs token picker_outcome tr) = Inr None)
   \<and> (\<not> isFalsyOrEmpty arg \<and> await_items arg = Resolved items \<longrightarrow>
        snd (showQuickPick isFalsyOrEmpty arg canPickMany token quickpick_outcome tr)
          = tr @ [Acquire] @ (if token = Some True then [] else [Present QuickPickSurface])
            @ [Release]
        \<and> (token = Some True \<longrightarrow>
             fst (showQuickPick isFalsyOrEmpty arg canPickMany token quickpick_outcome tr)
               = Inr Undefined))
   \<and> (isFalsyOrEmpty arg \<longrightarrow>
        showQuickPick isFalsyOrEmpty arg canPickMany token quickpick_outcome tr
          = (Inr Undefined, tr))
   \<and> (\<not> isFalsyOrEmpty arg \<and> await_items arg = Rejected \<longrightarrow>
        showQuickPick isFalsyOrEmpty arg canPickMany token quickpick_outcome tr
          = (Inl ItemsRejected, tr))"
proof -
  have menu: "snd (showMenuPicker token menu_outcome tr)
     = tr @ [Acquire] @ (if token = Some True then [] else [Present MenuSurface]) @ [Release]"
    by (cases menu_outcome) (simp_all add: showMenuPicker_def mutex_use_def)
  have picker: "snd (showPickerDialog xs token picker_outcome tr)
     = tr @ [Acquire] @ (if token = Some True then [] else [Present PickerSurface]) @ [Release]"
    by (cases picker_outcome)
       (simp_all add: showPickerDialog_def mutex_use_def split: option.splits)
  have quick: "snd (showQuickPick isFalsyOrEmpty arg canPickMany token quickpick_outcome tr)
          = tr @ [Acquire] @ (if token = Some True then [] else [Present QuickPickSurface])
            @ [Release]"
    if "\<not> isFalsyOrEmpty arg" and "await_items arg = Resolved items"
    using that
    by (cases quickpick_outcome)
       (simp_all add: showQuickPick_def mutex_use_def Let_def split: option.splits)
  show ?thesis
    using menu picker quick
    by (simp add: showMenuPicker_def showPickerDialog_def showQuickPick_def mutex_use_def)
qed

theorem pickers_check_after_acquire_witness:
  "showMenuPicker (Some True) (Closed 2) [] = (Inr (- 1), [Acquire, Release])
   \<and> showMenuPicker None (Closed 2) [] = (Inr 2, [Acquire, Present MenuSurface, Release])
   \<and> showPickerDialog [''a'', ''b''] (Some True) (Closed (Some [1])) []
       = (Inr None, [Acquire, Release])
   \<and> showQuickPick empty_or_not_array (ItemArray [Text ''a'']) False (Some True)
        (Closed (Some [\<lparr>label = ''a'', description = []\<rparr>])) []
       = (Inr Undefined, [Acquire, Release])
   \<and> showQuickPick empty_or_not_array (ItemPromise (Resolved [Text ''a''])) False (Some True)
        (Closed None) []
       = (Inr Undefined, [])
   \<and> showQuickPick empty_array (ItemPromise Rejected) False (Some True) (Closed None) []
       = (Inl ItemsRejected, [])"
proof -
  have m1: "fst (showMenuPicker (Some True) (Closed 2) []) = Inr (- 1)
            \<and> snd (showMenuPicker (Some True) (Closed 2) []) = [Acquire, Release]"
    and p1: "fst (showPickerDialog [''a'', ''b''] (Some True) (Closed (Some [1])) []) = Inr None
            \<and> snd (showPickerDialog [''a'', ''b''] (Some True) (Closed (Some [1])) [])
                = [Acquire, Release]"
    and q1: "fst (showQuickPick empty_or_not_array (ItemArray [Text ''a'']) False (Some True)
                   (Closed (Some [\<lparr>label = ''a'', description = []\<rparr>])) []) = Inr Undefined
            \<and> snd (showQuickPick empty_or_not_array (ItemArray [Text ''a'']) False (Some True)
                   (Closed (Some [\<lparr>label = ''a'', description = []\<rparr>])) [])
                = [Acquire, Release]"
    using pickers_check_after_acquire
            [where token = "Some True" and menu_outcome = "Closed 2" and tr = "[]"
               and xs = "[''a'', ''b'']" and picker_outcome = "Closed (Some [1])"
               and isFalsyOrEmpty = empty_or_not_array and arg = "ItemArray [Text ''a'']"
               and items = "[Text ''a'']" and canPickMany = False
               and quickpick_outcome = "Closed (Some [\<lparr>label = ''a'', description = []\<rparr>])"]
    by (simp_all add: empty_or_not_array_def await_items_def)
  have m2: "snd (showMenuPicker None (Closed 2) []) = [Acquire, Present MenuSurface, Release]"
    using pickers_check_after_acquire
            [where token = None and menu_outcome = "Closed 2" and tr = "[]"
               and xs = "[''a'', ''b'']" and picker_outcome = "Closed (Some [1])"
               and isFalsyOrEmpty = empty_or_not_array
               and arg = "ItemPromise (Resolved [Text ''a''])" and items = "[Text ''a'']"
               and canPickMany = False and quickpick_outcome = "Closed None"]
    by simp
  have q2: "showQuickPick empty_or_not_array (ItemPromise (Resolved [Text ''a''])) False
               (Some True) (Closed None) [] = (Inr Undefined, [])"
    using pickers_check_after_acquire
            [where token = "Some True" and menu_outcome = "Closed 2" and tr = "[]"
               and xs = "[''a'', ''b'']" and picker_outcome = "Closed (Some [1])"
               and isFalsyOrEmpty = empty_or_not_array
               and arg = "ItemPromise (Resolved [Text ''a''])" and items = "[Text ''a'']"
               and canPickMany = False and quickpick_outcome = "Closed None"]
    by (simp add: empty_or_not_array_def)
  have q3: "showQuickPick empty_array (ItemPromise Rejected) False (Some True) (Closed None) []
              = (Inl ItemsRejected, [])"
    using pickers_check_after_acquire
            [where token = "Some True" and menu_outcome = "Closed 2" and tr = "[]"
               and xs = "[''a'', ''b'']" and picker_outcome = "Closed (Some [1])"
               and isFalsyOrEmpty = empty_array and arg = "ItemPromise Rejected"
               and items = "[Text ''a'']" and canPickMany = False
               and quickpick_outcome = "Closed None"]
    by (simp add: empty_array_def await_items_def)
  have m2': "fst (showMenuPicker None (Closed 2) []) = Inr 2"
    by (simp add: showMenuPicker_def mutex_use_def)
  show ?thesis
    using m1 p1 q1 m2 m2' q2 q3 by (simp add: prod_eq_iff)
qed

section \<open>C10: the shape of a diff\<close>

text \<open>
  C10. In every diff that \<open>diffHighlights\<close> returns, the lines to clear are strictly
  increasing, so none occurs twice; and when the markers of the snapshot are pairwise
  distinct, no marker occurs twice among the markers to remove.
\<close>

theorem diff_well_formed:
  assumes "nvim_call ''coc#highlight#get_highlights'' (highlight_args bufnr ns region)
             = Resolved (Some cur)"
    and "fst (diffHighlights nvim_call ws bufnr ns items region token) = Inr (Some d)"
  shows "sorted_wrt (<) (remove d) \<and> distinct (remove d)
         \<and> (distinct (map res_id cur) \<longrightarrow> distinct (removeMarkers d))"
proof -
  let ?cm = "has ws ''nvim-0.5.1'' \<or> isVim ws"
  let ?st = "scan_lines ?cm cur (sort_key lnum items) region"
  have d: "d = reconcile ?cm cur (sort_key lnum items) region"
    using assms by (rule diffHighlights_diff)
  have inv: "scan_inv (scan_start region) cur (sort_key lnum items)
          (max (scan_start region) (Suc (max_line cur))) ?st"
    by (rule scan_lines_inv)
  have "sorted_wrt (<) (linesToRemove ?st)"
    and "distinct (map res_id cur) \<longrightarrow> distinct (markersToRemove ?st)"
    using inv by (simp_all add: scan_inv_def)
  moreover have "distinct (linesToRemove ?st)"
    using \<open>sorted_wrt (<) (linesToRemove ?st)\<close> by (simp add: strict_sorted_iff)
  ultimately show ?thesis
    unfolding d reconcile_eq by simp
qed

theorem diff_well_formed_witness:
  "fst (diffHighlights stale_highlights old_nvim_ws 1 ''ns'' [] None None)
     = Inr (Some \<lparr>remove = [1, 3], add = [], removeMarkers = []\<rparr>)
   \<and> fst (diffHighlights stale_highlights nvim_ws 1 ''ns'' [] None None)
     = Inr (Some \<lparr>remove = [], add = [], removeMarkers = [7, 8, 9]\<rparr>)
   \<and> distinct (map res_id stale)
   \<and> sorted_wrt (<) (remove \<lparr>remove = [1, 3], add = [], removeMarkers = []\<rparr>)
   \<and> distinct (removeMarkers \<lparr>remove = [], add = [], removeMarkers = [7, 8, 9]\<rparr>)"
proof -
  have h1: "stale_highlights ''coc#highlight#get_highlights'' (highlight_args 1 ''ns'' None)
              = Resolved (Some stale)"
    by (simp add: stale_highlights_def)
  have h2: "fst (diffHighlights stale_highlights old_nvim_ws 1 ''ns'' [] None None)
     = Inr (Some \<lparr>remove = [1, 3], add = [], removeMarkers = []\<rparr>)"
    by code_simp
  have h3: "fst (diffHighlights stale_highlights nvim_ws 1 ''ns'' [] None None)
     = Inr (Some \<lparr>remove = [], add = [], removeMarkers = [7, 8, 9]\<rparr>)"
    by code_simp
  have d: "distinct (map res_id stale)" by (simp add: stale_def record_at_def)
  show ?thesis
    using diff_well_formed [OF h1 h2] diff_well_formed [OF h1 h3] h2 h3 d by simp
qed

end
